theory Spec2Isabelle
  imports Complex_Main "HOL-Library.Sublist" "HOL-Library.Log_Nat"
begin

section \<open>Compression planning (\<open>aggressive_compress\<close>, \<open>compress_video\<close>)\<close>

subsection \<open>Python floats\<close>

text \<open>
  A Python float is an IEEE 754 binary64 number, and every float operation returns the
  exact result rounded to the nearest such number, ties to the even significand. A float
  is modelled by the rational it denotes. \<open>binade x\<close> is \<open>\<lfloor>log\<^sub>2 x\<rfloor>\<close> for \<open>x > 0\<close>, and \<open>fl x\<close>
  rounds \<open>x\<close> to 53 significant bits. The exponent range is not modelled (no overflow, no
  subnormal numbers): file sizes, durations and bitrates are far inside it.
  A float literal such as \<open>0.35\<close> is \<open>fl (35 / 100)\<close>; an int that meets a float in
  an operation is converted first (\<open>float_of_int\<close>).
\<close>

definition binade :: "rat \<Rightarrow> int" where
  "binade x = (if 1 \<le> x then bitlen \<lfloor>x\<rfloor> - 1 else - bitlen (\<lceil>1 / x\<rceil> - 1))"

definition scale2 :: "rat \<Rightarrow> int \<Rightarrow> rat" where
  "scale2 x e = (if 0 \<le> e then x * 2 ^ nat e else x / 2 ^ nat (- e))"

definition round_half_even :: "rat \<Rightarrow> int" where
  "round_half_even y =
     (if y - of_int \<lfloor>y\<rfloor> < 1 / 2 then \<lfloor>y\<rfloor>
      else if 1 / 2 < y - of_int \<lfloor>y\<rfloor> then \<lfloor>y\<rfloor> + 1
      else if even \<lfloor>y\<rfloor> then \<lfloor>y\<rfloor> else \<lfloor>y\<rfloor> + 1)"

definition fl :: "rat \<Rightarrow> rat" where
  "fl x =
     (if x = 0 then 0
      else sgn x * scale2 (of_int (round_half_even (scale2 \<bar>x\<bar> (52 - binade \<bar>x\<bar>))))
             (binade \<bar>x\<bar> - 52))"

definition float_of_int :: "int \<Rightarrow> rat" where
  "float_of_int n = fl (of_int n)"

definition fmul :: "rat \<Rightarrow> rat \<Rightarrow> rat" where
  "fmul a b = fl (a * b)"

definition fdiv :: "rat \<Rightarrow> rat \<Rightarrow> rat" where
  "fdiv a b = fl (a / b)"

text \<open>Python's \<open>int(x)\<close> on a float truncates towards zero.\<close>

definition py_int :: "rat \<Rightarrow> int" where
  "py_int x = (if 0 \<le> x then \<lfloor>x\<rfloor> else \<lceil>x\<rceil>)"

text \<open>
  \<open>p.stat().st_size / (1024 * 1024)\<close>: the quotient of two ints, correctly rounded. It is
  exact for every size below \<open>2\<^sup>5\<^sup>3\<close> bytes, and is taken to be exact. File sizes are byte
  counts (\<open>st_size\<close>), bitrates are Python ints.
\<close>

definition size_mb :: "nat \<Rightarrow> rat" where
  "size_mb st_size = of_nat st_size / (1024 * 1024)"

text \<open>
  The \<open>bit_rate\<close> entry of ffprobe's \<open>format\<close> object: missing (or empty, so falsy in
  Python), a value on which \<open>int(...)\<close> raises, or a value \<open>int(...)\<close> parses.
\<close>

datatype bit_rate_field = Absent | Unparsable | Parsed int

datatype error =
    CalledProcessError
  | ValueError
  | OSError
  | ApiError
  | TelegramError
  | FileNotFoundError
  | AttributeError
  | RuntimeError

subsection \<open>\<open>main.py\<close>: \<open>VideoProcessor.aggressive_compress\<close>\<close>

text \<open>
  Lines 254-266: \<open>current_bitrate_kbps\<close> is \<open>int(bit_rate) // 1000\<close> when the field is
  there and parses (a failing \<open>int\<close> is caught and gives \<open>None\<close>); when the result is
  \<open>None\<close> or \<open>0\<close> it is estimated from size and duration, or taken to be 2000.
\<close>

definition measured_kbps :: "bit_rate_field \<Rightarrow> int option" where
  "measured_kbps br = (case br of Parsed n \<Rightarrow> Some (n div 1000) | _ \<Rightarrow> None)"

definition current_bitrate_kbps :: "nat \<Rightarrow> rat \<Rightarrow> bit_rate_field \<Rightarrow> int" where
  "current_bitrate_kbps st_size duration br =
     (case measured_kbps br of
        Some k \<Rightarrow>
          if k \<noteq> 0 then k
          else if duration > 0
          then py_int (fdiv (fmul (fmul (size_mb st_size) 8) 1024) duration)
          else 2000
      | None \<Rightarrow>
          if duration > 0
          then py_int (fdiv (fmul (fmul (size_mb st_size) 8) 1024) duration)
          else 2000)"

record compression_plan =
  target_kbps :: int
  crf :: nat
  preset :: string
  audio_k :: nat

text \<open>
  Lines 268-287: the four size tiers, then the floor. \<open>current_bitrate_kbps * 0.35\<close> is a
  float product: at 660 kbps it is \<open>230.99999999999997\<close>, and \<open>int\<close> makes it 230.
\<close>

definition tier_plan :: "rat \<Rightarrow> int \<Rightarrow> compression_plan" where
  "tier_plan orig_size_mb cur =
     (if orig_size_mb > 50 then
        \<lparr>target_kbps = py_int (min (fmul (float_of_int cur) (fl (35 / 100))) 1500), crf = 30,
         preset = ''medium'', audio_k = 96\<rparr>
      else if orig_size_mb > 20 then
        \<lparr>target_kbps = py_int (min (fmul (float_of_int cur) (fl (4 / 10))) 2000), crf = 28,
         preset = ''medium'', audio_k = 96\<rparr>
      else if orig_size_mb > 5 then
        \<lparr>target_kbps = py_int (min (fmul (float_of_int cur) (fl (45 / 100))) 1500), crf = 27,
         preset = ''medium'', audio_k = 96\<rparr>
      else
        \<lparr>target_kbps = py_int (min (fmul (float_of_int cur) (fl (5 / 10))) 1000), crf = 26,
         preset = ''medium'', audio_k = 96\<rparr>)"

definition aggressive_plan :: "nat \<Rightarrow> rat \<Rightarrow> bit_rate_field \<Rightarrow> compression_plan" where
  "aggressive_plan st_size duration br =
     (let p = tier_plan (size_mb st_size) (current_bitrate_kbps st_size duration br)
      in p\<lparr>target_kbps := max (target_kbps p) 150\<rparr>)"

text \<open>The fraction and the cap each tier of \<open>aggressive_compress\<close> uses, read off the table.\<close>

definition bitrate_fraction :: "rat \<Rightarrow> rat" where
  "bitrate_fraction orig_size_mb =
     (if orig_size_mb > 50 then fl (35 / 100)
      else if orig_size_mb > 20 then fl (4 / 10)
      else if orig_size_mb > 5 then fl (45 / 100)
      else fl (5 / 10))"

definition bitrate_cap :: "rat \<Rightarrow> int" where
  "bitrate_cap orig_size_mb =
     (if orig_size_mb > 50 then 1500
      else if orig_size_mb > 20 then 2000
      else if orig_size_mb > 5 then 1500
      else 1000)"

text \<open>
  Lines 290-323: the encoder runs with \<open>check=True\<close>, so a failing first run raises.
  The size check and the second run sit in a \<open>try\<close> whose handler is \<open>pass\<close>: a
  failing \<open>stat\<close> or a failing second run is swallowed, and the function returns the
  output path either way. The environment gives whether each run exits with 0 and the
  size of the first run's output (\<open>None\<close> when \<open>out.stat()\<close> raises). The model returns
  the result together with the encoder invocations made, in order.
\<close>

record encode_cmd =
  cmd_preset :: string
  cmd_crf :: "nat option"
  cmd_bv :: int
  cmd_maxrate :: int
  cmd_bufsize :: int
  cmd_ba :: nat

definition first_cmd :: "compression_plan \<Rightarrow> encode_cmd" where
  "first_cmd p =
     \<lparr>cmd_preset = preset p, cmd_crf = Some (crf p), cmd_bv = target_kbps p,
      cmd_maxrate = py_int (fmul (float_of_int (target_kbps p)) (fl (12 / 10))),
      cmd_bufsize = py_int (of_int (target_kbps p * 2)), cmd_ba = audio_k p\<rparr>"




subsection \<open>\<open>instagram_to_HLS_dropbox.py\<close>: \<open>VideoProcessor.compress_video\<close>\<close>

text \<open>
  Lines 288-295: here a \<open>bit_rate\<close> that does not parse raises (the function re-raises
  it), a missing duration defaults to 30 (the caller passes the value read), and the
  fallback bitrate is 1000. Lines 300-322: \<open>target_bitrate\<close> stays a float (or the int
  150); the encoder is given \<open>int(target_bitrate)\<close>.
\<close>

definition compress_video_bitrate :: "nat \<Rightarrow> rat \<Rightarrow> bit_rate_field \<Rightarrow> error + int" where
  "compress_video_bitrate st_size duration br =
     (case br of
        Parsed n \<Rightarrow> Inr (n div 1000)
      | Unparsable \<Rightarrow> Inl ValueError
      | Absent \<Rightarrow>
          Inr (if duration > 0
               then py_int (fdiv (fmul (fmul (size_mb st_size) 8) 1024) duration)
               else 1000))"

definition compress_video_tier :: "rat \<Rightarrow> int \<Rightarrow> rat \<times> nat \<times> string" where
  "compress_video_tier file_size_mb cur =
     (if file_size_mb > 50
      then (min (fmul (float_of_int cur) (fl (2 / 10))) 600, 34, ''medium'')
      else if file_size_mb > 20
      then (min (fmul (float_of_int cur) (fl (25 / 100))) 700, 33, ''medium'')
      else if file_size_mb > 5
      then (min (fmul (float_of_int cur) (fl (3 / 10))) 500, 32, ''fast'')
      else (min (fmul (float_of_int cur) (fl (35 / 100))) 400, 31, ''fast''))"

definition compress_video_target :: "nat \<Rightarrow> rat \<Rightarrow> bit_rate_field \<Rightarrow> error + int" where
  "compress_video_target st_size duration br =
     (case compress_video_bitrate st_size duration br of
        Inl e \<Rightarrow> Inl e
      | Inr cur \<Rightarrow>
          (case compress_video_tier (size_mb st_size) cur of
             (target_bitrate, crf', preset') \<Rightarrow> Inr (py_int (max target_bitrate 150))))"


definition video_fraction :: "rat \<Rightarrow> rat" where
  "video_fraction file_size_mb =
     (if file_size_mb > 50 then fl (2 / 10)
      else if file_size_mb > 20 then fl (25 / 100)
      else if file_size_mb > 5 then fl (3 / 10)
      else fl (35 / 100))"

definition video_cap :: "rat \<Rightarrow> rat" where
  "video_cap file_size_mb =
     (if file_size_mb > 50 then 600
      else if file_size_mb > 20 then 700
      else if file_size_mb > 5 then 500
      else 400)"

section \<open>Properties of the planner\<close>

subsection \<open>Rounding\<close>

lemma floor_rat_numeral_div [simp]:
  "\<lfloor>(numeral a :: rat) / numeral b\<rfloor> = numeral a div numeral b"
  using floor_divide_of_int_eq [of "numeral a" "numeral b", where ?'a = rat] by simp

lemma ceiling_rat_numeral_div [simp]:
  "\<lceil>(numeral a :: rat) / numeral b\<rceil> = - ((- numeral a) div numeral b)"
  using ceiling_divide_eq_div [of "numeral a" "numeral b", where ?'a = rat] by simp

lemma py_int_of_int [simp]: "py_int (of_int n) = n"
  by (simp add: py_int_def)

text \<open>Evaluation of \<open>fl\<close> on a given number.\<close>

lemmas fl_eval = fl_def binade_def scale2_def round_half_even_def compute_bitlen

text \<open>The float literals of the two tier tables, and of the fallback pass.\<close>

lemma fl_35_100: "fl (35 / 100) = 3152519739159347 / 9007199254740992"
  by (simp add: fl_eval)

lemma fl_4_10: "fl (4 / 10) = 3602879701896397 / 9007199254740992"
  by (simp add: fl_eval)

lemma fl_45_100: "fl (45 / 100) = 8106479329266893 / 18014398509481984"
  by (simp add: fl_eval)

lemma fl_5_10: "fl (5 / 10) = 1 / 2"
  by (simp add: fl_eval)

lemma fl_2_10: "fl (2 / 10) = 3602879701896397 / 18014398509481984"
  by (simp add: fl_eval)

lemma fl_25_100: "fl (25 / 100) = 1 / 4"
  by (simp add: fl_eval)

lemma fl_3_10: "fl (3 / 10) = 5404319552844595 / 18014398509481984"
  by (simp add: fl_eval)


lemmas fl_literals = fl_35_100 fl_4_10 fl_45_100 fl_5_10 fl_2_10 fl_25_100 fl_3_10












subsection \<open>The plans\<close>

lemma tier_plan_fraction_cap:
  "target_kbps (tier_plan s cur) =
     py_int (min (fmul (float_of_int cur) (bitrate_fraction s)) (of_int (bitrate_cap s)))"
  by (simp add: tier_plan_def bitrate_fraction_def bitrate_cap_def)

lemma compress_video_tier_fraction_cap:
  "fst (compress_video_tier s cur) = min (fmul (float_of_int cur) (video_fraction s)) (video_cap s)"
  by (simp add: compress_video_tier_def video_fraction_def video_cap_def)

lemma size_mb_less_iff [simp]: "size_mb a < size_mb b \<longleftrightarrow> a < b"
  by (simp add: size_mb_def divide_less_cancel)




lemma aggressive_plan_floor: "150 \<le> target_kbps (aggressive_plan st_size duration br)"
  by (simp add: aggressive_plan_def Let_def)



lemma compress_video_target_floor:
  "compress_video_target st_size duration br = Inr t \<Longrightarrow> 150 \<le> t"
  unfolding compress_video_target_def py_int_def
  by (auto split: sum.splits prod.splits simp: le_floor_iff)

subsection \<open>C7: the floor of 150 kbps\<close>

text \<open>
  C7. For every input file size, duration and \<open>bit_rate\<close> field (measured, missing or
  unparsable), the target video bitrate that \<open>aggressive_compress\<close> plans is at least
  150 kbps; \<open>compress_video\<close> either raises \<open>ValueError\<close> on an unparsable \<open>bit_rate\<close>
  before any target is computed, or hands the encoder a target of at least 150 kbps.
\<close>

theorem target_bitrate_floor:
  "150 \<le> target_kbps (aggressive_plan st_size duration br) \<and>
   150 \<le> cmd_bv (first_cmd (aggressive_plan st_size duration br)) \<and>
   (case compress_video_target st_size duration br of
      Inl e \<Rightarrow> br = Unparsable \<and> e = ValueError
    | Inr t \<Rightarrow> 150 \<le> t)"
proof -
  have "150 \<le> target_kbps (aggressive_plan st_size duration br)"
    by (rule aggressive_plan_floor)
  moreover have "cmd_bv (first_cmd p) = target_kbps p" for p
    by (simp add: first_cmd_def)
  moreover have "case compress_video_target st_size duration br of
      Inl e \<Rightarrow> br = Unparsable \<and> e = ValueError
    | Inr t \<Rightarrow> 150 \<le> t"
  proof (cases "compress_video_target st_size duration br")
    case (Inl e)
    then show ?thesis
      by (auto simp: compress_video_target_def compress_video_bitrate_def
          split: bit_rate_field.splits sum.splits prod.splits)
  next
    case (Inr t)
    then show ?thesis by (simp add: compress_video_target_floor)
  qed
  ultimately show ?thesis by simp
qed

subsection \<open>C6: fractions and caps across the tiers\<close>

lemma bitrate_fraction_antimono: "s1 \<le> s2 \<Longrightarrow> bitrate_fraction s2 \<le> bitrate_fraction s1"
  unfolding bitrate_fraction_def fl_literals by simp

lemma video_fraction_antimono: "s1 \<le> s2 \<Longrightarrow> video_fraction s2 \<le> video_fraction s1"
  unfolding video_fraction_def fl_literals by simp

text \<open>
  C6, as stated, fails: the caps do not shrink as the size tier grows. A file of 6 MiB
  (tier \<open>> 5\<close>) gets the cap 1500 and, at a measured 10000 kbps, the target 1500, while
  a file of 5 MiB (last tier) gets the cap 1000 and the target 1000; in
  \<open>compress_video\<close> the same two sizes get the caps 500 and 400.
\<close>

theorem larger_tier_higher_cap:
  "\<not> bitrate_cap (size_mb 6291456) \<le> bitrate_cap (size_mb 5242880) \<and>
   target_kbps (aggressive_plan 6291456 10 (Parsed 10000000)) = 1500 \<and>
   target_kbps (aggressive_plan 5242880 10 (Parsed 10000000)) = 1000 \<and>
   \<not> video_cap (size_mb 6291456) \<le> video_cap (size_mb 5242880)"
  by (simp add: bitrate_cap_def video_cap_def size_mb_def aggressive_plan_def tier_plan_def
      current_bitrate_kbps_def measured_kbps_def fmul_def float_of_int_def fl_eval py_int_def)

text \<open>
  C6, amended. In both planners the fraction of the original bitrate never grows with
  the input size: it is the float 0.5, 0.45, 0.4, 0.35 in \<open>aggressive_compress\<close> and
  0.35, 0.3, 0.25, 0.2 in \<open>compress_video\<close> for the tiers up to 5 MB, above 5, above 20
  and above 50 MB. The cap does grow: it is 1000, 1500, 2000, 1500 kbps in
  \<open>aggressive_compress\<close> and 400, 500, 700, 600 kbps in \<open>compress_video\<close> for the same
  tiers. So the cap is non-increasing only among inputs above 20 MB, and any input above
  5 MB has a strictly higher cap than any input of at most 5 MB. The planned bitrate is
  the float product of the current bitrate and the tier's fraction, cut at the tier's cap.
\<close>

theorem tier_fraction_and_cap:
  assumes "s1 \<le> s2"
  shows "bitrate_fraction s2 \<le> bitrate_fraction s1 \<and>
         video_fraction s2 \<le> video_fraction s1 \<and>
         (20 < s1 \<longrightarrow> bitrate_cap s2 \<le> bitrate_cap s1 \<and> video_cap s2 \<le> video_cap s1) \<and>
         (s1 \<le> 5 \<and> 5 < s2 \<longrightarrow> bitrate_cap s1 < bitrate_cap s2 \<and> video_cap s1 < video_cap s2) \<and>
         (bitrate_fraction s1, bitrate_cap s1) =
           (if 50 < s1 then (fl (35 / 100), 1500)
            else if 20 < s1 then (fl (4 / 10), 2000)
            else if 5 < s1 then (fl (45 / 100), 1500)
            else (fl (5 / 10), 1000)) \<and>
         (video_fraction s1, video_cap s1) =
           (if 50 < s1 then (fl (2 / 10), 600)
            else if 20 < s1 then (fl (25 / 100), 700)
            else if 5 < s1 then (fl (3 / 10), 500)
            else (fl (35 / 100), 400)) \<and>
         target_kbps (tier_plan s1 cur) =
           py_int (min (fmul (float_of_int cur) (bitrate_fraction s1))
             (of_int (bitrate_cap s1))) \<and>
         fst (compress_video_tier s1 cur) =
           min (fmul (float_of_int cur) (video_fraction s1)) (video_cap s1)"
proof -
  have "20 < s1 \<longrightarrow> bitrate_cap s2 \<le> bitrate_cap s1 \<and> video_cap s2 \<le> video_cap s1"
    using assms by (simp add: bitrate_cap_def video_cap_def)
  moreover have "s1 \<le> 5 \<and> 5 < s2 \<longrightarrow> bitrate_cap s1 < bitrate_cap s2 \<and> video_cap s1 < video_cap s2"
    by (simp add: bitrate_cap_def video_cap_def)
  moreover have "(bitrate_fraction s1, bitrate_cap s1) =
           (if 50 < s1 then (fl (35 / 100), 1500)
            else if 20 < s1 then (fl (4 / 10), 2000)
            else if 5 < s1 then (fl (45 / 100), 1500)
            else (fl (5 / 10), 1000))"
    by (simp add: bitrate_fraction_def bitrate_cap_def)
  moreover have "(video_fraction s1, video_cap s1) =
           (if 50 < s1 then (fl (2 / 10), 600)
            else if 20 < s1 then (fl (25 / 100), 700)
            else if 5 < s1 then (fl (3 / 10), 500)
            else (fl (35 / 100), 400))"
    by (simp add: video_fraction_def video_cap_def)
  moreover note bitrate_fraction_antimono [OF assms] video_fraction_antimono [OF assms]
    tier_plan_fraction_cap [of s1 cur] compress_video_tier_fraction_cap [of s1 cur]
  ultimately show ?thesis by (intro conjI)
qed

theorem tier_fraction_and_cap_witness:
  "(30::rat) \<le> 60 \<and> bitrate_fraction 60 \<le> bitrate_fraction 30 \<and>
   video_fraction 60 \<le> video_fraction 30 \<and>
   bitrate_cap 60 \<le> bitrate_cap 30 \<and> video_cap 60 \<le> video_cap 30 \<and>
   bitrate_cap 5 < bitrate_cap 6 \<and> video_cap 5 < video_cap 6 \<and>
   bitrate_fraction 60 = fl (35 / 100) \<and> bitrate_cap 60 = 1500 \<and>
   target_kbps (tier_plan 60 660) = 230 \<and>
   py_int (fst (compress_video_tier 5 660)) = 230"
proof -
  have a: "(30::rat) \<le> 60" and b: "(5::rat) \<le> 6" and c: "(60::rat) \<le> 60" and d: "(5::rat) \<le> 5"
    by simp_all
  have p: "py_int (min (fmul (float_of_int 660) (fl (35 / 100))) 1500) = 230"
    "py_int (min (fmul (float_of_int 660) (fl (35 / 100))) 400) = 230"
    by (simp_all add: fmul_def float_of_int_def fl_eval py_int_def)
  have t: "bitrate_fraction 60 = fl (35 / 100)" "bitrate_cap 60 = 1500"
    "video_fraction 5 = fl (35 / 100)" "video_cap 5 = 400"
    using tier_fraction_and_cap [OF c, of 660] tier_fraction_and_cap [OF d, of 660] by simp_all
  have "target_kbps (tier_plan 60 660) = 230" "py_int (fst (compress_video_tier 5 660)) = 230"
    using tier_fraction_and_cap [OF c, of 660] tier_fraction_and_cap [OF d, of 660] p
    unfolding t by simp_all
  moreover have "bitrate_fraction 60 \<le> bitrate_fraction 30" "video_fraction 60 \<le> video_fraction 30"
    "bitrate_cap 60 \<le> bitrate_cap 30" "video_cap 60 \<le> video_cap 30"
    using tier_fraction_and_cap [OF a, of 3000] by simp_all
  moreover have "bitrate_cap 5 < bitrate_cap 6" "video_cap 5 < video_cap 6"
    using tier_fraction_and_cap [OF b, of 0] by simp_all
  ultimately show ?thesis using t by simp
qed

subsection \<open>C5: the fallback pass\<close>




section \<open>Content identity (\<open>DuplicateTracker.extract_video_id\<close>)\<close>

text \<open>
  The URL is a list of 8-bit characters (the UTF-8 bytes of the Python string). The
  character class \<open>[A-Za-z0-9_-]\<close> and the two markers are ASCII, and no byte of a
  multi-byte UTF-8 sequence is ASCII, so matching on bytes agrees with matching on code
  points.
\<close>

definition idchar :: "char \<Rightarrow> bool" where
  "idchar c =
     (let n = (of_char c :: nat) in
      (65 \<le> n \<and> n \<le> 90) \<or> (97 \<le> n \<and> n \<le> 122) \<or> (48 \<le> n \<and> n \<le> 57) \<or>
      c = CHR ''_'' \<or> c = CHR ''-'')"

text \<open>
  \<open>re.search(r'/(p|reel)/([A-Za-z0-9_-]+)', url)\<close>: \<open>match_here\<close> is the pattern
  anchored at the start of its argument (the alternatives in the pattern's order, the
  class repeated greedily, at least once) and gives group 2; \<open>re_search\<close> tries every
  start position from the left and keeps the first match.
\<close>

definition match_here :: "string \<Rightarrow> string option" where
  "match_here s =
     (if take 3 s = ''/p/'' \<and> takeWhile idchar (drop 3 s) \<noteq> []
      then Some (takeWhile idchar (drop 3 s))
      else if take 6 s = ''/reel/'' \<and> takeWhile idchar (drop 6 s) \<noteq> []
      then Some (takeWhile idchar (drop 6 s))
      else None)"

fun re_search :: "string \<Rightarrow> string option" where
  "re_search [] = None"
| "re_search (c # cs) =
     (case match_here (c # cs) of Some g \<Rightarrow> Some g | None \<Rightarrow> re_search cs)"

text \<open>
  Lines 181-186 of \<open>main.py\<close> (and 184-190 of \<open>instagram_to_HLS_dropbox.py\<close>, the same
  code). \<open>hashlib.md5(...).hexdigest()\<close> is library code: it is the parameter
  \<open>md5_hexdigest\<close>. The function reads nothing but its argument.
\<close>

definition extract_video_id :: "(string \<Rightarrow> string) \<Rightarrow> string \<Rightarrow> string" where
  "extract_video_id md5_hexdigest url =
     (case re_search url of Some g \<Rightarrow> g | None \<Rightarrow> take 12 (md5_hexdigest url))"

text \<open>
  A marker stands at index \<open>k\<close> of the URL when \<open>/p/\<close> or \<open>/reel/\<close> starts there and an
  identifier character follows it.
\<close>

definition marker_at :: "string \<Rightarrow> nat \<Rightarrow> bool" where
  "marker_at url k =
     (\<exists>m \<in> {''/p/'', ''/reel/''}. take (length m) (drop k url) = m \<and>
        k + length m < length url \<and> idchar (url ! (k + length m)))"


lemma match_here_Nil [simp]: "match_here [] = None"
  by (simp add: match_here_def)

lemma takeWhile_run:
  "\<forall>c\<in>set g. P c \<Longrightarrow> rest = [] \<or> \<not> P (hd rest) \<Longrightarrow> takeWhile P (g @ rest) = g"
  by (cases rest) (auto simp: takeWhile_append2)

lemma match_here_decomp:
  assumes m: "m = ''/p/'' \<or> m = ''/reel/''" and g: "g \<noteq> []" "\<forall>c\<in>set g. idchar c"
    and rest: "rest = [] \<or> \<not> idchar (hd rest)"
  shows "match_here (m @ g @ rest) = Some g"
proof -
  have tw: "takeWhile idchar (g @ rest) = g"
    using g(2) rest by (rule takeWhile_run)
  from m show ?thesis
  proof
    assume "m = ''/p/''"
    then show ?thesis using tw g(1) by (simp add: match_here_def)
  next
    assume "m = ''/reel/''"
    then show ?thesis using tw g(1) by (simp add: match_here_def)
  qed
qed

lemma match_here_Some:
  assumes "match_here s = Some g"
  shows "\<exists>m rest. s = m @ g @ rest \<and> (m = ''/p/'' \<or> m = ''/reel/'') \<and> g \<noteq> [] \<and>
           (\<forall>c\<in>set g. idchar c) \<and> (rest = [] \<or> \<not> idchar (hd rest))"
proof -
  have run: "\<exists>rest. t = takeWhile idchar t @ rest \<and> (rest = [] \<or> \<not> idchar (hd rest))" for t
    using hd_dropWhile [of idchar t] by (intro exI [of _ "dropWhile idchar t"]) auto
  have allid: "\<forall>c\<in>set (takeWhile idchar t). idchar c" for t
    by (auto dest: set_takeWhileD)
  consider (p) "take 3 s = ''/p/''" "g = takeWhile idchar (drop 3 s)" "g \<noteq> []"
    | (reel) "take 6 s = ''/reel/''" "g = takeWhile idchar (drop 6 s)" "g \<noteq> []"
    using assms by (auto simp: match_here_def split: if_splits)
  then show ?thesis
  proof cases
    case p
    obtain rest where r: "drop 3 s = g @ rest" "rest = [] \<or> \<not> idchar (hd rest)"
      using run [of "drop 3 s"] p(2) by auto
    have "s = ''/p/'' @ g @ rest"
      using append_take_drop_id [of 3 s] p(1) r(1) by simp
    moreover have "\<forall>c\<in>set g. idchar c"
      unfolding p(2) by (rule allid)
    ultimately show ?thesis using r(2) p(3)
      by (intro exI [of _ "''/p/''"] exI [of _ rest]) simp
  next
    case reel
    obtain rest where r: "drop 6 s = g @ rest" "rest = [] \<or> \<not> idchar (hd rest)"
      using run [of "drop 6 s"] reel(2) by auto
    have "s = ''/reel/'' @ g @ rest"
      using append_take_drop_id [of 6 s] reel(1) r(1) by simp
    moreover have "\<forall>c\<in>set g. idchar c"
      unfolding reel(2) by (rule allid)
    ultimately show ?thesis using r(2) reel(3)
      by (intro exI [of _ "''/reel/''"] exI [of _ rest]) simp
  qed
qed

lemma match_here_neq_None:
  "match_here s \<noteq> None \<longleftrightarrow>
     (take 3 s = ''/p/'' \<and> takeWhile idchar (drop 3 s) \<noteq> []) \<or>
     (take 6 s = ''/reel/'' \<and> takeWhile idchar (drop 6 s) \<noteq> [])"
proof -
  have "((if A then Some x else if B then Some y else None) \<noteq> None) = (A \<or> B)"
    for A B and x y :: string
    by simp
  then show ?thesis unfolding match_here_def .
qed

lemma marker_at_unfold:
  "marker_at url k \<longleftrightarrow>
     (take 3 (drop k url) = ''/p/'' \<and> k + 3 < length url \<and> idchar (url ! (k + 3))) \<or>
     (take 6 (drop k url) = ''/reel/'' \<and> k + 6 < length url \<and> idchar (url ! (k + 6)))"
proof -
  have l: "length ''/p/'' = 3" "length ''/reel/'' = 6" by simp_all
  show ?thesis
    unfolding marker_at_def by (simp only: bex_simps Bex_def insert_iff empty_iff) (metis l)
qed

lemma takeWhile_drop_nonempty:
  "takeWhile P (drop n (drop k url)) \<noteq> [] \<longleftrightarrow> k + n < length url \<and> P (url ! (k + n))"
proof (cases "drop n (drop k url)")
  case Nil
  then show ?thesis by simp
next
  case (Cons c cs)
  then have d: "drop (k + n) url = c # cs" by (simp add: add.commute)
  then have lt: "k + n < length url"
    by (cases "k + n < length url") simp_all
  then have "c = url ! (k + n)"
    using d hd_drop_conv_nth [of "k + n" url] by simp
  with lt show ?thesis using Cons by simp
qed

lemma match_here_marker_at: "match_here (drop k url) \<noteq> None \<longleftrightarrow> marker_at url k"
  unfolding match_here_neq_None marker_at_unfold takeWhile_drop_nonempty ..

lemma not_marker_at: "(\<not> marker_at url k) = (match_here (drop k url) = None)"
  using match_here_marker_at [of k url] by auto

lemma re_search_None: "re_search url = None \<longleftrightarrow> (\<forall>k. match_here (drop k url) = None)"
proof (induction url)
  case Nil
  then show ?case by simp
next
  case (Cons c cs)
  have "(\<forall>k. match_here (drop k (c # cs)) = None) \<longleftrightarrow>
        match_here (c # cs) = None \<and> (\<forall>k. match_here (drop k cs) = None)"
    (is "?L \<longleftrightarrow> ?R")
  proof
    assume l: ?L
    from l [rule_format, of 0] have "match_here (c # cs) = None" by simp
    moreover have "match_here (drop k cs) = None" for k
      using l [rule_format, of "Suc k"] by simp
    ultimately show ?R by simp
  next
    assume r: ?R
    show ?L
    proof
      fix k show "match_here (drop k (c # cs)) = None"
        using r by (cases k) simp_all
    qed
  qed
  with Cons show ?case by (simp split: option.splits)
qed

lemma re_search_first:
  "match_here s = Some g \<Longrightarrow> \<forall>j<length pre. match_here (drop j (pre @ s)) = None \<Longrightarrow>
   re_search (pre @ s) = Some g"
proof (induction pre)
  case Nil
  then show ?case by (cases s) simp_all
next
  case (Cons c pre)
  from Cons.prems(2) [rule_format, of 0] have "match_here (c # pre @ s) = None" by simp
  moreover have "\<forall>j<length pre. match_here (drop j (pre @ s)) = None"
  proof (intro allI impI)
    fix j assume "j < length pre"
    then show "match_here (drop j (pre @ s)) = None"
      using Cons.prems(2) [rule_format, of "Suc j"] by simp
  qed
  ultimately show ?case using Cons.IH [OF Cons.prems(1)] by simp
qed

lemma re_search_first_eq:
  "url = pre @ s \<Longrightarrow> match_here s = Some g \<Longrightarrow>
   \<forall>j<length pre. match_here (drop j url) = None \<Longrightarrow> re_search url = Some g"
proof -
  assume u: "url = pre @ s" and m: "match_here s = Some g"
    and n: "\<forall>j<length pre. match_here (drop j url) = None"
  have "\<forall>j<length pre. match_here (drop j (pre @ s)) = None"
    using n unfolding u .
  from re_search_first [OF m this] show "re_search url = Some g"
    unfolding u .
qed

lemma re_search_Some:
  "re_search url = Some g \<Longrightarrow>
   \<exists>pre s. url = pre @ s \<and> match_here s = Some g \<and>
     (\<forall>j<length pre. match_here (drop j url) = None)"
proof (induction url)
  case Nil
  then show ?case by simp
next
  case (Cons c cs)
  show ?case
  proof (cases "match_here (c # cs)")
    case (Some g')
    with Cons.prems have "g' = g" by simp
    with Some show ?thesis by (intro exI [of _ "[]"] exI [of _ "c # cs"]) simp
  next
    case None
    with Cons.prems have "re_search cs = Some g" by simp
    from Cons.IH [OF this] obtain pre s where
      ps: "cs = pre @ s" "match_here s = Some g" "\<forall>j<length pre. match_here (drop j cs) = None"
      by blast
    have "\<forall>j<length (c # pre). match_here (drop j (c # cs)) = None"
    proof (intro allI impI)
      fix j assume "j < length (c # pre)"
      then show "match_here (drop j (c # cs)) = None"
        using None ps(3) by (cases j) simp_all
    qed
    with ps(1,2) show ?thesis
      by (intro exI [of _ "c # pre"] exI [of _ s]) simp
  qed
qed

text \<open>Bounded checks, for evaluating the statement on concrete URLs.\<close>

lemma all_less_list_all: "(\<forall>j<n. P j) = list_all P [0..<n]"
  by (auto simp: list_all_iff)

lemma marker_at_bounded: "(\<forall>k. \<not> marker_at url k) = list_all (\<lambda>k. \<not> marker_at url k) [0..<length url]"
proof -
  have "\<not> marker_at url k" if "length url \<le> k" for k
    using that by (simp add: marker_at_unfold)
  then have "(\<forall>k. \<not> marker_at url k) = (\<forall>k<length url. \<not> marker_at url k)"
    by (meson not_le)
  then show ?thesis by (simp only: all_less_list_all)
qed

subsection \<open>C8: the content identifier\<close>

text \<open>
  C8. \<open>extract_video_id\<close> is a total function of the URL alone. Given that an MD5 hex
  digest has 32 characters:
  \<^item> when the URL splits as \<open>pre @ m @ g @ rest\<close> with \<open>m\<close> one of the two markers, \<open>g\<close>
    a non-empty run of identifier characters that ends at the end of the URL or before
    a character outside the class, and no marker standing at an earlier index, the
    result is \<open>g\<close>, the segment following the first marker;
  \<^item> whenever a marker stands anywhere in the URL, such a split exists;
  \<^item> when no marker stands anywhere, the result is the first 12 characters of the
    digest of the whole URL, and has length exactly 12.
\<close>

theorem extract_video_id_spec:
  assumes md5: "\<forall>s. length (md5_hexdigest s) = 32"
  shows
    "(\<forall>pre m g rest.
        url = pre @ m @ g @ rest \<and> (m = ''/p/'' \<or> m = ''/reel/'') \<and> g \<noteq> [] \<and>
        (\<forall>c\<in>set g. idchar c) \<and> (rest = [] \<or> \<not> idchar (hd rest)) \<and>
        (\<forall>j<length pre. \<not> marker_at url j)
        \<longrightarrow> extract_video_id md5_hexdigest url = g) \<and>
     ((\<exists>k. marker_at url k) \<longrightarrow>
        (\<exists>pre m g rest.
           url = pre @ m @ g @ rest \<and> (m = ''/p/'' \<or> m = ''/reel/'') \<and> g \<noteq> [] \<and>
           (\<forall>c\<in>set g. idchar c) \<and> (rest = [] \<or> \<not> idchar (hd rest)) \<and>
           (\<forall>j<length pre. \<not> marker_at url j))) \<and>
     ((\<forall>k. \<not> marker_at url k) \<longrightarrow>
        extract_video_id md5_hexdigest url = take 12 (md5_hexdigest url) \<and>
        length (extract_video_id md5_hexdigest url) = 12)"
proof (intro conjI allI impI)
  fix pre m g rest
  assume a: "url = pre @ m @ g @ rest \<and> (m = ''/p/'' \<or> m = ''/reel/'') \<and> g \<noteq> [] \<and>
        (\<forall>c\<in>set g. idchar c) \<and> (rest = [] \<or> \<not> idchar (hd rest)) \<and>
        (\<forall>j<length pre. \<not> marker_at url j)"
  then have mh: "match_here (m @ g @ rest) = Some g"
    by (intro match_here_decomp) simp_all
  from a have nm: "\<forall>j<length pre. \<not> marker_at url j"
    by (elim conjE)
  have none: "\<forall>j<length pre. match_here (drop j url) = None"
    using nm unfolding not_marker_at .
  have url: "url = pre @ (m @ g @ rest)"
    using a by simp
  from re_search_first_eq [OF url mh none]
  show "extract_video_id md5_hexdigest url = g"
    by (simp add: extract_video_id_def)
next
  assume "\<exists>k. marker_at url k"
  then have "re_search url \<noteq> None"
    unfolding re_search_None by (simp only: not_marker_at [symmetric]) blast
  then obtain g where "re_search url = Some g" by auto
  from re_search_Some [OF this] obtain pre s where
    ps: "url = pre @ s" "match_here s = Some g" "\<forall>j<length pre. match_here (drop j url) = None"
    by blast
  from match_here_Some [OF ps(2)] obtain m rest where
    mr: "s = m @ g @ rest \<and> (m = ''/p/'' \<or> m = ''/reel/'') \<and> g \<noteq> [] \<and>
      (\<forall>c\<in>set g. idchar c) \<and> (rest = [] \<or> \<not> idchar (hd rest))"
    by blast
  have "\<forall>j<length pre. \<not> marker_at url j"
    unfolding not_marker_at using ps(3) .
  with mr ps(1) have "url = pre @ m @ g @ rest \<and> (m = ''/p/'' \<or> m = ''/reel/'') \<and> g \<noteq> [] \<and>
           (\<forall>c\<in>set g. idchar c) \<and> (rest = [] \<or> \<not> idchar (hd rest)) \<and>
           (\<forall>j<length pre. \<not> marker_at url j)"
    by simp
  then show "\<exists>pre m g rest.
           url = pre @ m @ g @ rest \<and> (m = ''/p/'' \<or> m = ''/reel/'') \<and> g \<noteq> [] \<and>
           (\<forall>c\<in>set g. idchar c) \<and> (rest = [] \<or> \<not> idchar (hd rest)) \<and>
           (\<forall>j<length pre. \<not> marker_at url j)"
    by (intro exI)
next
  assume none: "\<forall>k. \<not> marker_at url k"
  then have "\<forall>k. match_here (drop k url) = None"
    unfolding not_marker_at .
  then have "re_search url = None"
    unfolding re_search_None .
  then show "extract_video_id md5_hexdigest url = take 12 (md5_hexdigest url)"
    by (simp add: extract_video_id_def)
  then show "length (extract_video_id md5_hexdigest url) = 12"
    using md5 by simp
qed


theorem extract_video_id_spec_witness:
  "extract_video_id (\<lambda>_. ''d41d8cd98f00b204e9800998ecf8427e'')
     ''https://www.instagram.com/reel/Cx1_a-b/?igsh=1'' = ''Cx1_a-b'' \<and>
   extract_video_id (\<lambda>_. ''d41d8cd98f00b204e9800998ecf8427e'')
     ''https://www.instagram.com/tv'' = ''d41d8cd98f00'' \<and>
   length (extract_video_id (\<lambda>_. ''d41d8cd98f00b204e9800998ecf8427e'')
     ''https://www.instagram.com/tv'') = 12"
proof -
  let ?H = "\<lambda>_::string. ''d41d8cd98f00b204e9800998ecf8427e''"
  let ?u1 = "''https://www.instagram.com/reel/Cx1_a-b/?igsh=1''"
  let ?u2 = "''https://www.instagram.com/tv''"
  have md5: "\<forall>s. length (?H s) = 32" by simp
  have len: "length ''https://www.instagram.com'' = 25" by simp
  have first: "\<forall>j<length ''https://www.instagram.com''. \<not> marker_at ?u1 j"
    unfolding len all_less_list_all by code_simp
  have g: "\<forall>c\<in>set ''Cx1_a-b''. idchar c" by code_simp
  have r: "\<not> idchar (hd ''/?igsh=1'')" by code_simp
  have none: "\<forall>k. \<not> marker_at ?u2 k"
    unfolding marker_at_bounded by code_simp
  have "extract_video_id ?H ?u1 = ''Cx1_a-b''"
    using extract_video_id_spec [OF md5, of ?u1, THEN conjunct1, rule_format,
        of "''https://www.instagram.com''" "''/reel/''" "''Cx1_a-b''" "''/?igsh=1''"]
      first g r by simp
  moreover have "extract_video_id ?H ?u2 = take 12 (?H ?u2) \<and> length (extract_video_id ?H ?u2) = 12"
    using extract_video_id_spec [OF md5, of ?u2, THEN conjunct2, THEN conjunct2] none by blast
  ultimately show ?thesis by simp
qed

section \<open>Publishing (\<open>VideoProcessor.upload_hls_folder\<close>)\<close>

text \<open>
  Lines 356-423 of \<open>main.py\<close>. The playlist text is a list of characters with code
  points below 256 (ffmpeg writes ASCII playlists); \<open>py_isspace\<close> is what \<open>\s\<close> matches
  on that range. \<open>read_text\<close> has already turned every line ending into \<open>\n\<close>.
\<close>

definition nl :: char where
  "nl = CHR 0x0A"

definition py_isspace :: "char \<Rightarrow> bool" where
  "py_isspace c =
     (let n = (of_char c :: nat) in
      (9 \<le> n \<and> n \<le> 13) \<or> (28 \<le> n \<and> n \<le> 32) \<or> n = 133 \<or> n = 160)"

text \<open>
  The pattern \<open>^[^#\s].*\.ts$\<close> with \<open>re.MULTILINE\<close>: \<open>.\<close> does not match a newline and
  \<open>$\<close> stands only before a newline or at the end, so a match starting at a line start
  is the whole line: a first character that is neither \<open>#\<close> nor whitespace, then any
  characters, then \<open>.ts\<close> at the end of the line.
\<close>

definition line_matches :: "string \<Rightarrow> bool" where
  "line_matches l =
     (case l of
        [] \<Rightarrow> False
      | c # cs \<Rightarrow> c \<noteq> CHR ''#'' \<and> \<not> py_isspace c \<and> suffix ''.ts'' cs)"

text \<open>Lines 405-409: the callback; \<open>filename\<close> is the matched text.\<close>

definition replace_segment_url :: "(string \<rightharpoonup> string) \<Rightarrow> string \<Rightarrow> string" where
  "replace_segment_url segment_urls filename =
     (if suffix ''.ts'' filename then
        (case segment_urls filename of Some url \<Rightarrow> url | None \<Rightarrow> filename)
      else filename)"

text \<open>
  \<open>re.sub\<close> scans the text from the left. \<open>bol\<close> says whether the position is the start
  of the text or follows a newline (where \<open>^\<close> matches). On a match the callback's
  result is emitted and the scan goes on behind the match, which is not a line start; a
  position with no match copies its character.
\<close>

function re_sub :: "(string \<rightharpoonup> string) \<Rightarrow> bool \<Rightarrow> string \<Rightarrow> string" where
  "re_sub segment_urls bol [] = []"
| "re_sub segment_urls bol (c # cs) =
     (if bol \<and> line_matches (takeWhile (\<lambda>x. x \<noteq> nl) (c # cs))
      then replace_segment_url segment_urls (takeWhile (\<lambda>x. x \<noteq> nl) (c # cs)) @
           re_sub segment_urls False (dropWhile (\<lambda>x. x \<noteq> nl) (c # cs))
      else c # re_sub segment_urls (c = nl) cs)"
  by pat_completeness auto
termination
proof (relation "measure (\<lambda>(segs, bol, s). length s)")
  show "wf (measure (\<lambda>(segs, bol, s). length s))" by simp
next
  fix segment_urls :: "string \<rightharpoonup> string" and bol c cs
  assume "bol \<and> line_matches (takeWhile (\<lambda>x. x \<noteq> nl) (c # cs))"
  then have "c \<noteq> nl" by (auto simp: line_matches_def)
  then have "length (dropWhile (\<lambda>x. x \<noteq> nl) (c # cs)) \<le> length cs"
    by (simp add: length_dropWhile_le)
  then show "((segment_urls, False, dropWhile (\<lambda>x. x \<noteq> nl) (c # cs)), (segment_urls, bol, c # cs))
      \<in> measure (\<lambda>(segs, bol, s). length s)"
    by simp
next
  fix segment_urls :: "string \<rightharpoonup> string" and bol c cs
  show "((segment_urls, c = nl, cs), (segment_urls, bol, c # cs)) \<in> measure (\<lambda>(segs, bol, s). length s)"
    by simp
qed

definition fixed_content :: "(string \<rightharpoonup> string) \<Rightarrow> string \<Rightarrow> string" where
  "fixed_content segment_urls content = re_sub segment_urls True content"

text \<open>
  \<open>pathlib\<close>'s \<open>suffix\<close>: the name from its last dot on, when that dot is neither the
  first nor the last character; empty otherwise.
\<close>

definition path_suffix :: "string \<Rightarrow> string" where
  "path_suffix name =
     (let ext = rev (takeWhile (\<lambda>c. c \<noteq> CHR ''.'') (rev name)) in
      if CHR ''.'' \<in> set name \<and> length ext + 1 < length name \<and> ext \<noteq> []
      then CHR ''.'' # ext else [])"

text \<open>\<open>str.replace(old, new)\<close> for a non-empty \<open>old\<close> (here the literal \<open>?dl=0\<close>).\<close>

function str_replace :: "string \<Rightarrow> string \<Rightarrow> string \<Rightarrow> string" where
  "str_replace old new [] = []"
| "str_replace old new (c # cs) =
     (if old \<noteq> [] \<and> prefix old (c # cs)
      then new @ str_replace old new (drop (length old) (c # cs))
      else c # str_replace old new cs)"
  by pat_completeness auto
termination
proof (relation "measure (\<lambda>(old, new, s). length s)")
  show "wf (measure (\<lambda>(old, new, s). length s))" by simp
next
  fix old new :: string and c cs
  assume "old \<noteq> [] \<and> prefix old (c # cs)"
  then have "0 < length old" by simp
  then show "((old, new, drop (length old) (c # cs)), (old, new, c # cs))
      \<in> measure (\<lambda>(old, new, s). length s)"
    by simp
next
  fix old new :: string and c cs
  show "((old, new, cs), (old, new, c # cs)) \<in> measure (\<lambda>(old, new, s). length s)"
    by simp
qed

definition raw_url :: "string \<Rightarrow> string" where
  "raw_url url = str_replace ''?dl=0'' ''?raw=1'' url"

text \<open>
  What Dropbox answers. \<open>files_upload\<close> on a remote path returns or raises.
  \<open>sharing_create_shared_link\<close> returns a link, or raises an error that mentions
  \<open>shared_link_already_exists\<close> (then \<open>sharing_list_shared_links\<close> is asked: it raises,
  \<open>None\<close>, or returns the links), or raises any other error, which line 385 swallows.
\<close>

datatype link_result = Created string | AlreadyExists "string list option" | LinkError

record dropbox_env =
  files_upload_ok :: "string \<Rightarrow> bool"
  create_shared_link :: "string \<Rightarrow> link_result"

text \<open>
  The function's local dictionary \<open>segment_urls\<close> and the uploads made so far (remote
  path and data, in order). The folder is a list of its files, name and content.
\<close>

record publish_state =
  segment_urls :: "string \<rightharpoonup> string"
  uploaded :: "(string \<times> string) list"

fun upload_segments ::
  "dropbox_env \<Rightarrow> string \<Rightarrow> (string \<times> string) list \<Rightarrow> publish_state \<Rightarrow> (error + unit) \<times> publish_state"
where
  "upload_segments env dropbox_folder [] st = (Inr (), st)"
| "upload_segments env dropbox_folder ((name, data) # fs) st =
     (let remote = dropbox_folder @ ''/'' @ name in
      if \<not> files_upload_ok env remote then (Inl ApiError, st)
      else
        (let st1 = st\<lparr>uploaded := uploaded st @ [(remote, data)]\<rparr> in
         case create_shared_link env remote of
           Created url \<Rightarrow>
             upload_segments env dropbox_folder fs
               (st1\<lparr>segment_urls := (segment_urls st1)(name \<mapsto> raw_url url)\<rparr>)
         | LinkError \<Rightarrow> upload_segments env dropbox_folder fs st1
         | AlreadyExists None \<Rightarrow> (Inl ApiError, st1)
         | AlreadyExists (Some links) \<Rightarrow>
             (case links of
                [] \<Rightarrow> upload_segments env dropbox_folder fs st1
              | url # _ \<Rightarrow>
                  upload_segments env dropbox_folder fs
                    (st1\<lparr>segment_urls := (segment_urls st1)(name \<mapsto> raw_url url)\<rparr>))))"

fun upload_playlists ::
  "dropbox_env \<Rightarrow> string \<Rightarrow> (string \<times> string) list \<Rightarrow> publish_state \<Rightarrow> (error + unit) \<times> publish_state"
where
  "upload_playlists env dropbox_folder [] st = (Inr (), st)"
| "upload_playlists env dropbox_folder ((name, content) # fs) st =
     (let remote = dropbox_folder @ ''/'' @ name in
      if \<not> files_upload_ok env remote then (Inl ApiError, st)
      else upload_playlists env dropbox_folder fs
             (st\<lparr>uploaded := uploaded st @ [(remote, fixed_content (segment_urls st) content)]\<rparr>))"

definition ts_files :: "(string \<times> string) list \<Rightarrow> (string \<times> string) list" where
  "ts_files listing = filter (\<lambda>f. path_suffix (fst f) = ''.ts'') listing"

definition m3u8_files :: "(string \<times> string) list \<Rightarrow> (string \<times> string) list" where
  "m3u8_files listing = filter (\<lambda>f. path_suffix (fst f) = ''.m3u8'') listing"

definition upload_hls_folder ::
  "dropbox_env \<Rightarrow> string \<Rightarrow> (string \<times> string) list option \<Rightarrow> (error + unit) \<times> publish_state"
where
  "upload_hls_folder env video_id listing =
     (case listing of
        None \<Rightarrow> (Inl FileNotFoundError, \<lparr>segment_urls = Map.empty, uploaded = []\<rparr>)
      | Some files \<Rightarrow>
          (case upload_segments env (''/hls/'' @ video_id) (ts_files files)
                  \<lparr>segment_urls = Map.empty, uploaded = []\<rparr> of
             (Inl e, st) \<Rightarrow> (Inl e, st)
           | (Inr u, st) \<Rightarrow>
               upload_playlists env (''/hls/'' @ video_id) (m3u8_files files) st))"

subsection \<open>Lines of a text\<close>

text \<open>
  The vocabulary of the claim: the lines of a text are what Python's
  \<open>content.split('\\n')\<close> gives, and \<open>join_lines\<close> puts them back with one newline
  between neighbours. \<open>fix_line\<close> is what the substitution does to one line: the
  callback where the pattern matches the line, nothing elsewhere.
\<close>

fun split_lines :: "string \<Rightarrow> string list" where
  "split_lines [] = [[]]"
| "split_lines (c # cs) =
     (if c = nl then [] # split_lines cs
      else (c # hd (split_lines cs)) # tl (split_lines cs))"

fun join_lines :: "string list \<Rightarrow> string" where
  "join_lines [] = []"
| "join_lines [l] = l"
| "join_lines (l # l' # ls) = l @ nl # join_lines (l' # ls)"

definition fix_line :: "(string \<rightharpoonup> string) \<Rightarrow> string \<Rightarrow> string" where
  "fix_line segs l = (if line_matches l then replace_segment_url segs l else l)"

text \<open>A folder with one segment and its playlist, and a Dropbox that accepts everything.\<close>

definition example_env :: dropbox_env where
  "example_env =
     \<lparr>files_upload_ok = (\<lambda>remote. True),
      create_shared_link = (\<lambda>remote. Created ''https://db.example/s/a?dl=0'')\<rparr>"

definition example_folder :: "(string \<times> string) list" where
  "example_folder =
     [(''v_00000.ts'', ''x''),
      (''v.m3u8'', ''#EXTM3U'' @ [nl] @ ''v_00000.ts'' @ [nl])]"

section \<open>Properties of the manifest rewrite\<close>

lemma split_lines_nonempty [simp]: "split_lines s \<noteq> []"
  by (cases s) simp_all

lemma join_split [simp]: "join_lines (split_lines s) = s"
proof (induction s)
  case Nil
  then show ?case by simp
next
  case (Cons c cs)
  obtain l ls where sp: "split_lines cs = l # ls"
    by (cases "split_lines cs") simp_all
  with Cons show ?case by (cases ls) auto
qed

lemma split_lines_no_nl: "l \<in> set (split_lines s) \<Longrightarrow> nl \<notin> set l"
proof (induction s arbitrary: l)
  case Nil
  then show ?case by simp
next
  case (Cons c cs)
  obtain l' ls where sp: "split_lines cs = l' # ls"
    by (cases "split_lines cs") simp_all
  with Cons show ?case by (auto split: if_splits)
qed

lemma re_sub_in_line:
  "nl \<notin> set l \<Longrightarrow> re_sub segs False (l @ nl # rest) = l @ nl # re_sub segs True rest"
  by (induction l) auto

lemma re_sub_in_last_line: "nl \<notin> set l \<Longrightarrow> re_sub segs False l = l"
  by (induction l) auto

lemma takeWhile_line: "nl \<notin> set l \<Longrightarrow> takeWhile (\<lambda>x. x \<noteq> nl) (l @ nl # rest) = l"
  by (induction l) auto

lemma dropWhile_line: "nl \<notin> set l \<Longrightarrow> dropWhile (\<lambda>x. x \<noteq> nl) (l @ nl # rest) = nl # rest"
  by (induction l) auto

lemma takeWhile_last_line: "nl \<notin> set l \<Longrightarrow> takeWhile (\<lambda>x. x \<noteq> nl) l = l"
  by (induction l) auto

lemma dropWhile_last_line: "nl \<notin> set l \<Longrightarrow> dropWhile (\<lambda>x. x \<noteq> nl) l = []"
  by (induction l) auto

lemma re_sub_line:
  assumes "nl \<notin> set l"
  shows "re_sub segs True (l @ nl # rest) = fix_line segs l @ nl # re_sub segs True rest"
proof (cases l)
  case Nil
  then show ?thesis by (simp add: fix_line_def line_matches_def)
next
  case (Cons c cs)
  have tw: "takeWhile (\<lambda>x. x \<noteq> nl) (c # cs @ nl # rest) = l"
    using takeWhile_line [OF assms, of rest] Cons by simp
  have dw: "dropWhile (\<lambda>x. x \<noteq> nl) (c # cs @ nl # rest) = nl # rest"
    using dropWhile_line [OF assms, of rest] Cons by simp
  have cnl: "c \<noteq> nl" "nl \<notin> set cs" using assms Cons by auto
  show ?thesis
  proof (cases "line_matches l")
    case True
    then show ?thesis
      unfolding Cons append_Cons re_sub.simps tw dw using Cons
      by (simp add: fix_line_def)
  next
    case False
    then show ?thesis
      unfolding Cons append_Cons re_sub.simps tw using Cons cnl
      by (simp add: fix_line_def re_sub_in_line)
  qed
qed

lemma re_sub_last_line:
  assumes "nl \<notin> set l"
  shows "re_sub segs True l = fix_line segs l"
proof (cases l)
  case Nil
  then show ?thesis by (simp add: fix_line_def line_matches_def)
next
  case (Cons c cs)
  have tw: "takeWhile (\<lambda>x. x \<noteq> nl) (c # cs) = l"
    using takeWhile_last_line [OF assms] Cons by simp
  have dw: "dropWhile (\<lambda>x. x \<noteq> nl) (c # cs) = []"
    using dropWhile_last_line [OF assms] Cons by simp
  have cnl: "c \<noteq> nl" "nl \<notin> set cs" using assms Cons by auto
  show ?thesis
  proof (cases "line_matches l")
    case True
    then show ?thesis
      unfolding Cons re_sub.simps tw dw using Cons
      by (simp add: fix_line_def)
  next
    case False
    then show ?thesis
      unfolding Cons re_sub.simps tw using Cons cnl
      by (simp add: fix_line_def re_sub_in_last_line)
  qed
qed

lemma re_sub_join:
  "ls \<noteq> [] \<Longrightarrow> \<forall>l\<in>set ls. nl \<notin> set l \<Longrightarrow>
   re_sub segs True (join_lines ls) = join_lines (map (fix_line segs) ls)"
proof (induction ls rule: join_lines.induct)
  case 1
  then show ?case by simp
next
  case (2 l)
  then show ?case by (simp add: re_sub_last_line)
next
  case (3 l l' ls)
  then show ?case by (simp add: re_sub_line)
qed

lemma fixed_content_lines:
  "fixed_content segs content = join_lines (map (fix_line segs) (split_lines content))"
proof -
  have "re_sub segs True (join_lines (split_lines content)) =
        join_lines (map (fix_line segs) (split_lines content))"
    by (rule re_sub_join) (simp_all add: split_lines_no_nl)
  then show ?thesis by (simp add: fixed_content_def)
qed


lemma path_suffix_ts:
  assumes "path_suffix name = ''.ts''"
  shows "\<exists>c cs. name = c # cs \<and> suffix ''.ts'' cs"
proof -
  let ?P = "\<lambda>c. c \<noteq> CHR ''.''"
  let ?tw = "takeWhile ?P (rev name)"
  from assms have dot: "CHR ''.'' \<in> set name" and len: "length (rev ?tw) + 1 < length name"
    and ext: "rev ?tw = ''ts''"
    by (auto simp: path_suffix_def Let_def split: if_splits)
  from ext have tw: "?tw = ''st''"
    by (metis rev_rev_ident rev.simps(1,2) append_Nil append_Cons)
  from dot have "dropWhile ?P (rev name) \<noteq> []" by auto
  moreover have "\<not> ?P (hd (dropWhile ?P (rev name)))"
    using calculation by (rule hd_dropWhile)
  ultimately obtain rest where dw: "dropWhile ?P (rev name) = CHR ''.'' # rest"
    by (cases "dropWhile ?P (rev name)") auto
  have "rev name = ?tw @ dropWhile ?P (rev name)" by simp
  then have "rev name = ''st'' @ CHR ''.'' # rest" using tw dw by simp
  then have "rev (rev name) = rev (''st'' @ CHR ''.'' # rest)" by (rule arg_cong)
  then have name: "name = rev rest @ ''.ts''" by simp
  from len ext name have "rest \<noteq> []" by auto
  then obtain c cs where "rev rest = c # cs" by (cases "rev rest") auto
  with name have "name = c # (cs @ ''.ts'')" by simp
  then show ?thesis by (auto simp: suffix_def)
qed

lemma upload_segments_keys:
  "upload_segments env folder fs st = (r, st') \<Longrightarrow>
   \<forall>f\<in>set fs. P (fst f) \<Longrightarrow>
   \<forall>k\<in>dom (segment_urls st). P k \<Longrightarrow>
   \<forall>k\<in>dom (segment_urls st'). P k"
proof (induction env folder fs st rule: upload_segments.induct)
  case (1 env dropbox_folder st)
  then show ?case by simp
next
  case (2 env dropbox_folder name data fs st)
  let ?remote = "dropbox_folder @ ''/'' @ name"
  let ?st1 = "st\<lparr>uploaded := uploaded st @ [(?remote, data)]\<rparr>"
  have nm: "P name" and fs: "\<forall>f\<in>set fs. P (fst f)"
    using "2.prems"(2) by simp_all
  show ?case
  proof (cases "files_upload_ok env ?remote")
    case False
    with "2.prems" show ?thesis by (simp add: Let_def)
  next
    case ok: True
    show ?thesis
    proof (cases "create_shared_link env ?remote")
      case (Created url)
      let ?st2 = "?st1\<lparr>segment_urls := (segment_urls ?st1)(name \<mapsto> raw_url url)\<rparr>"
      have run: "upload_segments env dropbox_folder fs ?st2 = (r, st')"
        using "2.prems"(1) ok Created by (simp add: Let_def)
      have "\<forall>k\<in>dom (segment_urls ?st2). P k"
        using "2.prems"(3) nm by auto
      from "2.IH"(1) [OF refl _ refl Created run fs this] ok show ?thesis by simp
    next
      case LinkError
      have run: "upload_segments env dropbox_folder fs ?st1 = (r, st')"
        using "2.prems"(1) ok LinkError by (simp add: Let_def)
      have "\<forall>k\<in>dom (segment_urls ?st1). P k"
        using "2.prems"(3) by auto
      from "2.IH"(4) [OF refl _ refl LinkError run fs this] ok show ?thesis by simp
    next
      case (AlreadyExists links)
      show ?thesis
      proof (cases links)
        case None
        with "2.prems" ok AlreadyExists show ?thesis by (auto simp: Let_def)
      next
        case (Some ls)
        show ?thesis
        proof (cases ls)
          case Nil
          have run: "upload_segments env dropbox_folder fs ?st1 = (r, st')"
            using "2.prems"(1) ok AlreadyExists Some Nil by (simp add: Let_def)
          have "\<forall>k\<in>dom (segment_urls ?st1). P k"
            using "2.prems"(3) by auto
          from "2.IH"(2) [OF refl _ refl AlreadyExists Some Nil run fs this] ok
          show ?thesis by simp
        next
          case (Cons url us)
          let ?st2 = "?st1\<lparr>segment_urls := (segment_urls ?st1)(name \<mapsto> raw_url url)\<rparr>"
          have run: "upload_segments env dropbox_folder fs ?st2 = (r, st')"
            using "2.prems"(1) ok AlreadyExists Some Cons by (simp add: Let_def)
          have "\<forall>k\<in>dom (segment_urls ?st2). P k"
            using "2.prems"(3) nm by auto
          from "2.IH"(3) [OF refl _ refl AlreadyExists Some Cons run fs this] ok
          show ?thesis by simp
        qed
      qed
    qed
  qed
qed

lemma upload_playlists_state:
  "upload_playlists env folder fs st = (Inr (), st') \<Longrightarrow>
   segment_urls st' = segment_urls st \<and>
   uploaded st' = uploaded st @
     map (\<lambda>f. (folder @ ''/'' @ fst f, fixed_content (segment_urls st) (snd f))) fs"
proof (induction env folder fs st rule: upload_playlists.induct)
  case (1 env dropbox_folder st)
  then show ?case by simp
next
  case (2 env dropbox_folder name content fs st)
  then show ?case by (auto simp: Let_def split: if_splits)
qed


lemma fix_line_known:
  assumes "segs l = Some u" "path_suffix l = ''.ts''" "hd l \<noteq> CHR ''#''" "\<not> py_isspace (hd l)"
  shows "fix_line segs l = u"
proof -
  from path_suffix_ts [OF assms(2)] obtain c cs where l: "l = c # cs" "suffix ''.ts'' cs"
    by blast
  then have "suffix ''.ts'' l" by (simp add: suffix_Cons)
  moreover have "line_matches l" using l assms(3,4) by (simp add: line_matches_def)
  ultimately show ?thesis using assms(1) by (simp add: fix_line_def replace_segment_url_def)
qed

lemma fix_line_unchanged:
  assumes "l = [] \<or> hd l = CHR ''#'' \<or> py_isspace (hd l) \<or> segs l = None"
  shows "fix_line segs l = l"
  using assms
  by (cases l) (auto simp: fix_line_def line_matches_def replace_segment_url_def)

subsection \<open>C9: the manifest rewrite\<close>

text \<open>
  C9. When \<open>upload_hls_folder\<close> returns normally, every playlist of the folder was
  uploaded with exactly this text: its lines, each passed through \<open>fix_line\<close>, joined
  again (and splitting into lines loses nothing). The known segments, the keys of
  \<open>segment_urls\<close>, are \<open>.ts\<close> files of the folder. For every line:
  \<^item> a line that is a known segment's name and is not a comment (its first character is
    neither \<open>#\<close> nor whitespace) is replaced by that segment's link;
  \<^item> an empty line, a line starting with \<open>#\<close> or with whitespace, and a line that is
    not a known segment's name stay as they are.
\<close>

theorem manifest_rewrite:
  assumes run: "upload_hls_folder env video_id (Some files) = (Inr (), st)"
  shows
    "(\<exists>ups. uploaded st = ups @
        map (\<lambda>f. (''/hls/'' @ video_id @ ''/'' @ fst f,
                  join_lines (map (fix_line (segment_urls st)) (split_lines (snd f)))))
          (m3u8_files files)) \<and>
     (\<forall>content. join_lines (split_lines content) = content) \<and>
     (\<forall>l u. segment_urls st l = Some u \<longrightarrow>
        l \<in> fst ` set files \<and> path_suffix l = ''.ts'') \<and>
     (\<forall>l u. segment_urls st l = Some u \<and> hd l \<noteq> CHR ''#'' \<and> \<not> py_isspace (hd l)
        \<longrightarrow> fix_line (segment_urls st) l = u) \<and>
     (\<forall>l. l = [] \<or> hd l = CHR ''#'' \<or> py_isspace (hd l) \<or> segment_urls st l = None
        \<longrightarrow> fix_line (segment_urls st) l = l)"
proof -
  let ?init = "\<lparr>segment_urls = Map.empty, uploaded = []\<rparr>"
  let ?folder = "''/hls/'' @ video_id"
  obtain r1 st1 where seg: "upload_segments env ?folder (ts_files files) ?init = (r1, st1)"
    by (cases "upload_segments env ?folder (ts_files files) ?init")
  with run have r1: "r1 = Inr ()"
    and pl: "upload_playlists env ?folder (m3u8_files files) st1 = (Inr (), st)"
    by (auto simp: upload_hls_folder_def split: sum.splits)
  from upload_playlists_state [OF pl]
  have segs: "segment_urls st = segment_urls st1"
    and ups: "uploaded st = uploaded st1 @
      map (\<lambda>f. (?folder @ ''/'' @ fst f, fixed_content (segment_urls st1) (snd f)))
        (m3u8_files files)"
    by simp_all
  have keys_ts: "\<forall>k\<in>dom (segment_urls st1). path_suffix k = ''.ts''"
    by (rule upload_segments_keys [OF seg]) (simp_all add: ts_files_def)
  have keys_in: "\<forall>k\<in>dom (segment_urls st1). k \<in> fst ` set files"
    by (rule upload_segments_keys [OF seg]) (auto simp: ts_files_def)
  have a: "\<exists>ups. uploaded st = ups @
        map (\<lambda>f. (''/hls/'' @ video_id @ ''/'' @ fst f,
                  join_lines (map (fix_line (segment_urls st)) (split_lines (snd f)))))
          (m3u8_files files)"
    using ups by (intro exI [of _ "uploaded st1"]) (simp add: segs fixed_content_lines)
  have c: "\<forall>l u. segment_urls st l = Some u \<longrightarrow>
        l \<in> fst ` set files \<and> path_suffix l = ''.ts''"
    using keys_ts keys_in unfolding segs by (meson domI)
  have d: "\<forall>l u. segment_urls st l = Some u \<and> hd l \<noteq> CHR ''#'' \<and> \<not> py_isspace (hd l)
        \<longrightarrow> fix_line (segment_urls st) l = u"
    using c fix_line_known by blast
  have e: "\<forall>l. l = [] \<or> hd l = CHR ''#'' \<or> py_isspace (hd l) \<or> segment_urls st l = None
        \<longrightarrow> fix_line (segment_urls st) l = l"
    using fix_line_unchanged by blast
  from a c d e show ?thesis by simp
qed

lemma example_run:
  "upload_hls_folder example_env ''v'' (Some example_folder) =
     (Inr (),
      \<lparr>segment_urls = [''v_00000.ts'' \<mapsto> ''https://db.example/s/a?raw=1''],
       uploaded =
         [(''/hls/v/v_00000.ts'', ''x''),
          (''/hls/v/v.m3u8'',
           ''#EXTM3U'' @ [nl] @ ''https://db.example/s/a?raw=1'' @ [nl])]\<rparr>)"
  by (simp add: upload_hls_folder_def example_env_def example_folder_def ts_files_def
      m3u8_files_def path_suffix_def Let_def raw_url_def fixed_content_def nl_def
      line_matches_def replace_segment_url_def py_isspace_def suffix_def)

theorem manifest_rewrite_witness:
  "fst (upload_hls_folder example_env ''v'' (Some example_folder)) = Inr () \<and>
   map snd (uploaded (snd (upload_hls_folder example_env ''v'' (Some example_folder)))) =
     [''x'', ''#EXTM3U'' @ [nl] @ ''https://db.example/s/a?raw=1'' @ [nl]] \<and>
   fix_line [''v_00000.ts'' \<mapsto> ''https://db.example/s/a?raw=1''] ''v_00000.ts'' =
     ''https://db.example/s/a?raw=1'' \<and>
   fix_line [''v_00000.ts'' \<mapsto> ''https://db.example/s/a?raw=1''] ''#EXTM3U'' = ''#EXTM3U''"
proof -
  have sp: "\<not> py_isspace (hd ''v_00000.ts'')" "hd ''v_00000.ts'' \<noteq> CHR ''#''"
    by (simp_all add: py_isspace_def)
  show ?thesis
    using manifest_rewrite [OF example_run] sp by (simp add: example_run)
qed

section \<open>Jobs: the ledger, local files and notifications\<close>

text \<open>
  A job is what one submitted URL sets off: \<open>InstagramBot.handle_message\<close>
  (\<open>main.py\<close>, lines 465-509) and \<open>create_flask_app.bg\<close> (\<open>main.py\<close>, lines 529-541);
  \<open>InstagramBot.process_instagram_url\<close> (\<open>instagram_to_HLS_dropbox.py\<close>, lines 473-582)
  and \<open>create_flask_app.background_process\<close> (\<open>instagram_to_HLS_dropbox.py\<close>, lines
  794-974). Each is a sequence of calls that can raise (Telegram, yt-dlp, ffmpeg, Dropbox)
  around the set kept by \<open>DuplicateTracker\<close>.

  A job is a state transformer over a \<open>world\<close>: the in-memory set of processed identifiers,
  the ledger file on disk, the entries of \<open>VIDEO_FOLDER\<close>, and the trace of what has been
  done so far. A raised exception is the result \<open>Inl e\<close>; \<open>try/except\<close>, \<open>try/finally\<close>
  and \<open>except: pass\<close> are the combinators \<open>try_except\<close>, \<open>try_finally\<close> and \<open>swallow\<close>.
\<close>

datatype disk_file = NoFile | Ledger "string set" | Corrupt

datatype write_result = Written | OpenFailed | WriteFailed

datatype entry_kind = RegularFile | Directory

datatype step = Download | Compress | GenerateHLS | Upload

datatype notice =
    NotInstagram
  | Starting
  | AlreadyProcessed
  | Progress step
  | Success
  | Failure
  | FinalFailure

datatype event =
    Notified notice bool
  | CheckedDuplicate bool
  | Ran step bool
  | Marked string
  | Saved write_result
  | CleanedUp
  | Slept nat

record world =
  ledger :: "string set"
  disk :: disk_file
  files :: "string \<rightharpoonup> entry_kind"
  trace :: "event list"

type_synonym 'a action = "world \<Rightarrow> (error + 'a) \<times> world"

definition return :: "'a \<Rightarrow> 'a action" where
  "return x w = (Inr x, w)"

definition raise :: "error \<Rightarrow> 'a action" where
  "raise e w = (Inl e, w)"

definition then_do :: "'a action \<Rightarrow> ('a \<Rightarrow> 'b action) \<Rightarrow> 'b action" where
  "then_do m f w = (case m w of (Inl e, w') \<Rightarrow> (Inl e, w') | (Inr x, w') \<Rightarrow> f x w')"

definition try_except :: "'a action \<Rightarrow> (error \<Rightarrow> 'a action) \<Rightarrow> 'a action" where
  "try_except m handler w = (case m w of (Inl e, w') \<Rightarrow> handler e w' | (Inr x, w') \<Rightarrow> (Inr x, w'))"

definition try_finally :: "'a action \<Rightarrow> unit action \<Rightarrow> 'a action" where
  "try_finally m final w =
     (case m w of (r, w') \<Rightarrow>
        (case final w' of (Inl e, w'') \<Rightarrow> (Inl e, w'') | (Inr u, w'') \<Rightarrow> (r, w'')))"

definition swallow :: "'a action \<Rightarrow> unit action" where
  "swallow m w = (case m w of (r, w') \<Rightarrow> (Inr (), w'))"

definition emit :: "event \<Rightarrow> world \<Rightarrow> world" where
  "emit ev = trace_update (\<lambda>t. t @ [ev])"

definition call :: "event \<Rightarrow> bool \<Rightarrow> error \<Rightarrow> unit action" where
  "call ev ok e w = (if ok then Inr () else Inl e, emit ev w)"

subsection \<open>\<open>DuplicateTracker\<close>\<close>

text \<open>
  The ledger file holds a JSON list of identifiers, or is missing, or cannot be parsed;
  \<open>__init__\<close> (\<open>main.py\<close>, lines 165-173) and \<open>load_database\<close> read the latter two as the
  empty set. \<open>save\<close> (\<open>main.py\<close>, lines 175-179) and \<open>save_database\<close>
  (\<open>instagram_to_HLS_dropbox.py\<close>, lines 175-182) write the file inside \<open>try\<close> with a
  handler that raises nothing: the write succeeds, or the file cannot be opened and stays
  as it was, or the write breaks off and leaves a file that cannot be parsed.
  \<open>restart\<close> is a new process reading the file.
\<close>

definition load :: "disk_file \<Rightarrow> string set" where
  "load d = (case d of Ledger ids \<Rightarrow> ids | NoFile \<Rightarrow> {} | Corrupt \<Rightarrow> {})"

definition restart :: "world \<Rightarrow> world" where
  "restart w = w\<lparr>ledger := load (disk w)\<rparr>"

definition save :: "write_result \<Rightarrow> unit action" where
  "save wr w =
     (Inr (),
      emit (Saved wr)
        (case wr of
           Written \<Rightarrow> w\<lparr>disk := Ledger (ledger w)\<rparr>
         | OpenFailed \<Rightarrow> w
         | WriteFailed \<Rightarrow> w\<lparr>disk := Corrupt\<rparr>))"

definition is_duplicate :: "(string \<Rightarrow> string) \<Rightarrow> string \<Rightarrow> bool action" where
  "is_duplicate md5_hexdigest url w =
     (Inr (extract_video_id md5_hexdigest url \<in> ledger w),
      emit (CheckedDuplicate (extract_video_id md5_hexdigest url \<in> ledger w)) w)"

definition mark_processed :: "(string \<Rightarrow> string) \<Rightarrow> write_result \<Rightarrow> string \<Rightarrow> unit action" where
  "mark_processed md5_hexdigest wr url =
     then_do
       (\<lambda>w. (Inr (),
             emit (Marked (extract_video_id md5_hexdigest url))
               (ledger_update (insert (extract_video_id md5_hexdigest url)) w)))
       (\<lambda>u. save wr)"

section \<open>The jobs\<close>

text \<open>
  The outcome of every external call of one attempt is a field of \<open>env\<close>: whether a
  Telegram message can be sent, whether yt-dlp, ffmpeg and Dropbox succeed, how the write
  of the ledger ends, which entries of \<open>VIDEO_FOLDER\<close> can be removed, and whether an event
  loop and a \<open>Bot\<close> can be created and the loop closed. The steps record what they did in
  the trace.
\<close>

record env =
  notify_ok :: "notice \<Rightarrow> bool"
  failure_notice_ok :: "nat \<Rightarrow> bool"
  ext :: string
  epoch :: string
  download_ok :: bool
  compress_ok :: bool
  hls_ok :: bool
  upload_ok :: bool
  save_result :: write_result
  remove_ok :: "string \<Rightarrow> bool"
  loop_ok :: bool
  bot_ok :: bool
  close_ok :: bool
  mkdir_ok :: bool

definition notify :: "env \<Rightarrow> notice \<Rightarrow> unit action" where
  "notify env n = call (Notified n (notify_ok env n)) (notify_ok env n) TelegramError"

definition sleep :: "nat \<Rightarrow> unit action" where
  "sleep seconds w = (Inr (), emit (Slept seconds) w)"

definition download_instagram_video :: "env \<Rightarrow> (string \<Rightarrow> string) \<Rightarrow> string \<Rightarrow> string action" where
  "download_instagram_video env md5_hexdigest url w =
     (let filename = extract_video_id md5_hexdigest url @ ''.'' @ ext env in
      if download_ok env
      then (Inr filename,
            emit (Ran Download True) (files_update (\<lambda>fs. fs(filename \<mapsto> RegularFile)) w))
      else (Inl OSError, emit (Ran Download False) w))"

definition aggressive_compress_step :: "env \<Rightarrow> string \<Rightarrow> string action" where
  "aggressive_compress_step env input_path w =
     (let out = ''compressed_'' @ input_path in
      if compress_ok env
      then (Inr out, emit (Ran Compress True) (files_update (\<lambda>fs. fs(out \<mapsto> RegularFile)) w))
      else (Inl CalledProcessError, emit (Ran Compress False) w))"

definition generate_hls :: "env \<Rightarrow> string \<Rightarrow> string \<Rightarrow> string action" where
  "generate_hls env input_path video_id w =
     (let w1 = files_update (\<lambda>fs. fs(''hls'' \<mapsto> Directory)) w in
      if hls_ok env
      then (Inr (''hls/'' @ video_id), emit (Ran GenerateHLS True) w1)
      else (Inl CalledProcessError, emit (Ran GenerateHLS False) w1))"

definition upload_hls_step :: "env \<Rightarrow> string \<Rightarrow> unit action" where
  "upload_hls_step env local_dir = call (Ran Upload (upload_ok env)) (upload_ok env) ApiError"

definition cleanup_local :: "env \<Rightarrow> unit action" where
  "cleanup_local env w =
     (Inr (),
      emit CleanedUp (files_update (\<lambda>fs p. if remove_ok env p then None else fs p) w))"

subsection \<open>\<open>main.py\<close>: \<open>handle_message\<close> and \<open>bg\<close>\<close>

text \<open>
  \<open>handle_message\<close> runs every step, and the cleanup in its \<open>finally\<close> block, as
  \<open>await context.application.run_in_executor(None, step, ...)\<close> (lines 481, 485, 490, 494
  and 507). \<open>context.application\<close> is a \<open>telegram.ext.Application\<close>, which has no attribute
  \<open>run_in_executor\<close>: the attribute lookup raises \<open>AttributeError\<close> before the step is
  called. So the handler gets as far as the notice that the download starts; the error is
  caught by \<open>except Exception\<close> at line 501, and the one raised in \<open>finally\<close> by
  \<open>except Exception: pass\<close> at line 508. \<open>bg\<close> calls the steps directly.
\<close>

definition run_in_executor :: "'a action \<Rightarrow> 'a action" where
  "run_in_executor func = raise AttributeError"

definition handle_message :: "env \<Rightarrow> (string \<Rightarrow> string) \<Rightarrow> string \<Rightarrow> unit action" where
  "handle_message env md5_hexdigest url =
     (if \<not> sublist ''instagram.com'' url then notify env NotInstagram
      else
        then_do (notify env Starting) (\<lambda>processing_msg.
        try_finally
          (try_except
             (then_do (is_duplicate md5_hexdigest url) (\<lambda>dup.
              if dup then notify env AlreadyProcessed
              else
                then_do (notify env (Progress Download)) (\<lambda>u.
                then_do (run_in_executor (download_instagram_video env md5_hexdigest url))
                  (\<lambda>downloaded.
                then_do (notify env (Progress Compress)) (\<lambda>u.
                then_do (run_in_executor (aggressive_compress_step env downloaded))
                  (\<lambda>compressed.
                then_do (notify env (Progress GenerateHLS)) (\<lambda>u.
                then_do
                  (run_in_executor
                     (generate_hls env compressed (extract_video_id md5_hexdigest url)))
                  (\<lambda>local_hls_dir.
                then_do (notify env (Progress Upload)) (\<lambda>u.
                then_do (run_in_executor (upload_hls_step env local_hls_dir)) (\<lambda>u.
                then_do (mark_processed md5_hexdigest (save_result env) url) (\<lambda>u.
                notify env Success)))))))))))
             (\<lambda>e. notify env Failure))
          (swallow (run_in_executor (cleanup_local env)))))"

definition bg :: "env \<Rightarrow> (string \<Rightarrow> string) \<Rightarrow> string \<Rightarrow> unit action" where
  "bg env md5_hexdigest url =
     try_except
       (then_do (download_instagram_video env md5_hexdigest url) (\<lambda>downloaded.
        then_do (aggressive_compress_step env downloaded) (\<lambda>compressed.
        then_do (generate_hls env compressed (extract_video_id md5_hexdigest url)) (\<lambda>hls_local.
        then_do (upload_hls_step env hls_local) (\<lambda>u.
        then_do (mark_processed md5_hexdigest (save_result env) url) (\<lambda>u.
        cleanup_local env))))))
       (\<lambda>e. return ())"

datatype http_response = BadRequest | Accepted

definition process_instagram ::
  "env \<Rightarrow> (string \<Rightarrow> string) \<Rightarrow> string option \<Rightarrow> world \<Rightarrow> http_response \<times> world"
where
  "process_instagram env md5_hexdigest url_arg w =
     (case url_arg of
        None \<Rightarrow> (BadRequest, w)
      | Some url \<Rightarrow>
          if url = [] then (BadRequest, w)
          else if \<not> sublist ''instagram.com'' url then (BadRequest, w)
          else (Accepted, snd (bg env md5_hexdigest url w)))"

definition setup_directories :: "env \<Rightarrow> unit action" where
  "setup_directories env = (if mkdir_ok env then return () else raise OSError)"

subsection \<open>\<open>instagram_to_HLS_dropbox.py\<close>: \<open>process_instagram_url\<close> and \<open>background_process\<close>\<close>

text \<open>
  Both jobs look the URL up in the ledger, create \<open>VIDEO_FOLDER\<close> (\<open>setup_directories\<close>) and
  then run the steps. \<open>process_instagram_url\<close> retries only its failure message (three
  times, sleeping \<open>attempt * 2\<close> seconds before each). \<open>background_process\<close> runs a loop
  \<open>while retry_count < max_retries\<close>; every iteration has its own outcomes,
  \<open>envs retry_count\<close>. Inside the \<open>try\<close> of one iteration (lines 799-929) it sleeps
  \<open>retry_count * 2 + 1\<close> seconds, creates an event loop (\<open>asyncio.new_event_loop\<close>) and a
  \<open>Bot\<close>, runs \<open>process_in_thread\<close> to completion and closes the loop; a failure of any of
  these is a failed attempt. After the last failed attempt \<open>send_final_error\<close> (lines
  943-968) creates another loop and \<open>Bot\<close> and sends the final notice, all inside a \<open>try\<close>
  whose handler only logs.
\<close>

definition download_video :: "env \<Rightarrow> string \<Rightarrow> string action" where
  "download_video env url w =
     (let filename =
            (case re_search url of
               Some video_id \<Rightarrow> ''instagram_'' @ video_id
             | None \<Rightarrow> ''instagram_video_'' @ epoch env) @ ''.'' @ ext env
      in if download_ok env
         then (Inr filename,
               emit (Ran Download True) (files_update (\<lambda>fs. fs(filename \<mapsto> RegularFile)) w))
         else (Inl OSError, emit (Ran Download False) w))"

definition compress_video_step :: "env \<Rightarrow> string \<Rightarrow> string action" where
  "compress_video_step env input_path w =
     (let out = ''compressed_480p_'' @ input_path in
      if compress_ok env
      then (Inr out,
            emit (Ran Compress True)
              (files_update (\<lambda>fs. (fs(out \<mapsto> RegularFile))(input_path := None)) w))
      else (Inl CalledProcessError, emit (Ran Compress False) w))"

definition upload_to_dropbox :: "env \<Rightarrow> string \<Rightarrow> unit action" where
  "upload_to_dropbox env file_path = call (Ran Upload (upload_ok env)) (upload_ok env) ApiError"

definition cleanup_local_files :: "env \<Rightarrow> unit action" where
  "cleanup_local_files env w =
     (Inr (),
      emit CleanedUp
        (files_update
           (\<lambda>fs p. if fs p = Some RegularFile \<and> remove_ok env p then None else fs p) w))"

fun send_error_message :: "env \<Rightarrow> nat list \<Rightarrow> unit action" where
  "send_error_message env [] = return ()"
| "send_error_message env (attempt # rest) =
     then_do (sleep (attempt * 2)) (\<lambda>u.
     try_except
       (call (Notified Failure (failure_notice_ok env attempt)) (failure_notice_ok env attempt)
          TelegramError)
       (\<lambda>send_error. send_error_message env rest))"

definition process_instagram_url :: "env \<Rightarrow> (string \<Rightarrow> string) \<Rightarrow> string \<Rightarrow> unit action" where
  "process_instagram_url env md5_hexdigest url =
     try_except
       (then_do (is_duplicate md5_hexdigest url) (\<lambda>dup.
        if dup then notify env AlreadyProcessed
        else
          then_do (setup_directories env) (\<lambda>u.
          then_do (notify env Starting) (\<lambda>processing_msg.
          then_do (download_video env url) (\<lambda>downloaded_file.
          then_do (notify env (Progress Compress)) (\<lambda>u.
          then_do (compress_video_step env downloaded_file) (\<lambda>compressed_file.
          then_do (notify env (Progress Upload)) (\<lambda>u.
          then_do (upload_to_dropbox env compressed_file) (\<lambda>dropbox_url.
          then_do (mark_processed md5_hexdigest (save_result env) url) (\<lambda>u.
          then_do (cleanup_local_files env) (\<lambda>u.
          notify env Success)))))))))))
       (\<lambda>e.
          then_do (send_error_message env [0, 1, 2]) (\<lambda>u.
          swallow (cleanup_local_files env)))"

definition process_in_thread :: "env \<Rightarrow> (string \<Rightarrow> string) \<Rightarrow> string \<Rightarrow> unit action" where
  "process_in_thread env md5_hexdigest url =
     try_except
       (then_do (is_duplicate md5_hexdigest url) (\<lambda>dup.
        if dup then notify env AlreadyProcessed
        else
          then_do (setup_directories env) (\<lambda>u.
          then_do (notify env Starting) (\<lambda>processing_msg.
          then_do (download_video env url) (\<lambda>downloaded_file.
          then_do (notify env (Progress Compress)) (\<lambda>u.
          then_do (compress_video_step env downloaded_file) (\<lambda>compressed_file.
          then_do (notify env (Progress Upload)) (\<lambda>u.
          then_do (upload_to_dropbox env compressed_file) (\<lambda>dropbox_url.
          then_do (mark_processed md5_hexdigest (save_result env) url) (\<lambda>u.
          then_do (cleanup_local_files env) (\<lambda>u.
          notify env Success)))))))))))
       (\<lambda>process_error.
          then_do (swallow (notify env Failure)) (\<lambda>u.
          then_do (swallow (cleanup_local_files env)) (\<lambda>u.
          raise process_error)))"

definition max_retries :: nat where
  "max_retries = 3"

definition new_event_loop :: "env \<Rightarrow> unit action" where
  "new_event_loop env = (if loop_ok env then return () else raise OSError)"

definition new_bot :: "env \<Rightarrow> unit action" where
  "new_bot env = (if bot_ok env then return () else raise TelegramError)"

definition loop_close :: "env \<Rightarrow> unit action" where
  "loop_close env = (if close_ok env then return () else raise RuntimeError)"

definition attempt :: "(nat \<Rightarrow> env) \<Rightarrow> (string \<Rightarrow> string) \<Rightarrow> string \<Rightarrow> nat \<Rightarrow> unit action" where
  "attempt envs md5_hexdigest url retry_count =
     then_do (sleep (retry_count * 2 + 1)) (\<lambda>u.
     then_do (new_event_loop (envs retry_count)) (\<lambda>loop.
     then_do (new_bot (envs retry_count)) (\<lambda>thread_bot.
     then_do (process_in_thread (envs retry_count) md5_hexdigest url) (\<lambda>result.
     loop_close (envs retry_count)))))"

definition send_final_error :: "env \<Rightarrow> unit action" where
  "send_final_error final =
     then_do (new_event_loop final) (\<lambda>final_loop.
     then_do (new_bot final) (\<lambda>final_bot.
     then_do (notify final FinalFailure) (\<lambda>u.
     loop_close final)))"

function background_loop ::
  "(nat \<Rightarrow> env) \<Rightarrow> env \<Rightarrow> (string \<Rightarrow> string) \<Rightarrow> string \<Rightarrow> nat \<Rightarrow> unit action"
where
  "background_loop envs final md5_hexdigest url retry_count w =
     (if retry_count < max_retries then
        (case attempt envs md5_hexdigest url retry_count w of
           (Inr u, w') \<Rightarrow> (Inr (), w')
         | (Inl e, w') \<Rightarrow>
             if retry_count + 1 \<ge> max_retries
             then swallow (send_final_error final) w'
             else background_loop envs final md5_hexdigest url (retry_count + 1) w')
      else (Inr (), w))"
  by pat_completeness auto
termination
  by (relation "measure (\<lambda>(envs, final, h, url, retry_count, w). max_retries - retry_count)")
     auto

definition background_process ::
  "(nat \<Rightarrow> env) \<Rightarrow> env \<Rightarrow> (string \<Rightarrow> string) \<Rightarrow> string \<Rightarrow> unit action"
where
  "background_process envs final md5_hexdigest url =
     background_loop envs final md5_hexdigest url 0"

subsection \<open>Example runs\<close>

definition all_ok :: env where
  "all_ok =
     \<lparr>notify_ok = (\<lambda>n. True), failure_notice_ok = (\<lambda>n. True), ext = ''mp4'',
      epoch = ''0'', download_ok = True, compress_ok = True, hls_ok = True, upload_ok = True,
      save_result = Written, remove_ok = (\<lambda>p. True), loop_ok = True, bot_ok = True,
      close_ok = True, mkdir_ok = True\<rparr>"

definition md5_stub :: "string \<Rightarrow> string" where
  "md5_stub s = ''d41d8cd98f00b204e9800998ecf8427e''"

definition fresh :: world where
  "fresh = \<lparr>ledger = {}, disk = NoFile, files = Map.empty, trace = []\<rparr>"

definition events_of :: "'a action \<Rightarrow> world \<Rightarrow> event list" where
  "events_of m w = drop (length (trace w)) (trace (snd (m w)))"

definition example_url :: string where
  "example_url = ''https://www.instagram.com/reel/abc123/''"

definition fails_until :: "nat \<Rightarrow> nat \<Rightarrow> env" where
  "fails_until k retry_count = all_ok\<lparr>download_ok := (k \<le> retry_count)\<rparr>"

definition known :: world where
  "known = fresh\<lparr>ledger := {''abc123''}, disk := Ledger {''abc123''}\<rparr>"

subsection \<open>What a trace shows\<close>

text \<open>
  \<open>only_marked_after chain vid evs\<close>: wherever the events \<open>evs\<close> of a job add an identifier
  to the ledger, it is the identifier \<open>vid\<close> of the job's URL, the steps \<open>chain\<close> have all
  succeeded immediately before (notifications aside), nothing else is added before or
  after, and no success notification has been sent yet; and a job whose upload succeeded,
  or that sent a success notification, has added it. \<open>runs s evs\<close> are the runs of step
  \<open>s\<close>, \<open>sleeps evs\<close> the seconds slept, \<open>checks evs\<close> the look-ups in the ledger, \<open>finals evs\<close>
  the final failure notices, and \<open>steps_after_sleep evs\<close> the steps run after the first
  sleep.
\<close>

fun is_mark :: "event \<Rightarrow> bool" where
  "is_mark (Marked c) = True"
| "is_mark e = False"

fun is_notice :: "event \<Rightarrow> bool" where
  "is_notice (Notified n b) = True"
| "is_notice e = False"

definition marks :: "event list \<Rightarrow> event list" where
  "marks evs = filter is_mark evs"

definition before_mark :: "event list \<Rightarrow> event list" where
  "before_mark evs = takeWhile (\<lambda>e. \<not> is_mark e) evs"

definition work :: "event list \<Rightarrow> event list" where
  "work evs = filter (\<lambda>e. \<not> is_notice e) evs"

definition no_success :: "event list \<Rightarrow> bool" where
  "no_success evs \<longleftrightarrow> Notified Success True \<notin> set evs \<and> Notified Success False \<notin> set evs"

definition main_chain :: "event list" where
  "main_chain = [Ran Download True, Ran Compress True, Ran GenerateHLS True, Ran Upload True]"

definition old_chain :: "event list" where
  "old_chain = [Ran Download True, Ran Compress True, Ran Upload True]"

definition good :: "event list \<Rightarrow> string \<Rightarrow> event list \<Rightarrow> bool" where
  "good chain vid evs \<longleftrightarrow>
     marks evs = [] \<and> Ran Upload True \<notin> set evs \<and> no_success evs \<or>
     marks evs = [Marked vid] \<and> suffix chain (work (before_mark evs)) \<and>
       no_success (before_mark evs)"

definition only_marked_after :: "event list \<Rightarrow> string \<Rightarrow> event list \<Rightarrow> bool" where
  "only_marked_after chain vid evs \<longleftrightarrow>
     (\<forall>pre c post. evs = pre @ Marked c # post \<longrightarrow>
        c = vid \<and> suffix chain (work pre) \<and>
        (\<forall>c'. Marked c' \<notin> set pre \<and> Marked c' \<notin> set post) \<and>
        (\<forall>b. Notified Success b \<notin> set pre)) \<and>
     (Ran Upload True \<in> set evs \<longrightarrow> Marked vid \<in> set evs) \<and>
     (\<forall>b. Notified Success b \<in> set evs \<longrightarrow> Marked vid \<in> set evs)"

definition inv ::
  "event list \<Rightarrow> string \<Rightarrow> event list \<Rightarrow> string set \<Rightarrow> world \<Rightarrow> bool"
where
  "inv chain vid t0 l0 w \<longleftrightarrow>
     (\<exists>evs. trace w = t0 @ evs \<and> good chain vid evs \<and>
        ledger w = (if marks evs = [] then l0 else insert vid l0))"

definition job_ok :: "event list \<Rightarrow> string \<Rightarrow> world \<Rightarrow> world \<Rightarrow> bool" where
  "job_ok chain vid w w' \<longleftrightarrow> inv chain vid (trace w) (ledger w) w'"

fun slept :: "event \<Rightarrow> nat list" where
  "slept (Slept n) = [n]"
| "slept e = []"

definition sleeps :: "event list \<Rightarrow> nat list" where
  "sleeps evs = concat (map slept evs)"

definition finals :: "event list \<Rightarrow> event list" where
  "finals evs =
     filter (\<lambda>e. e = Notified FinalFailure True \<or> e = Notified FinalFailure False) evs"

fun is_check :: "event \<Rightarrow> bool" where
  "is_check (CheckedDuplicate b) = True"
| "is_check e = False"

definition checks :: "event list \<Rightarrow> event list" where
  "checks evs = filter is_check evs"

fun ran :: "step \<Rightarrow> event \<Rightarrow> bool" where
  "ran s (Ran s' b) = (s = s')"
| "ran s e = False"

definition runs :: "step \<Rightarrow> event list \<Rightarrow> event list" where
  "runs s evs = filter (ran s) evs"

fun is_ran :: "event \<Rightarrow> bool" where
  "is_ran (Ran s b) = True"
| "is_ran e = False"

definition steps_after_sleep :: "event list \<Rightarrow> event list" where
  "steps_after_sleep evs = filter is_ran (dropWhile (\<lambda>e. slept e = []) evs)"

definition wp ::
  "'a action \<Rightarrow> ('a \<Rightarrow> world \<Rightarrow> bool) \<Rightarrow> (error \<Rightarrow> world \<Rightarrow> bool) \<Rightarrow> world \<Rightarrow> bool"
where
  "wp m Q E w = (case m w of (Inr x, w') \<Rightarrow> Q x w' | (Inl e, w') \<Rightarrow> E e w')"

section \<open>Reasoning about jobs\<close>

subsection \<open>Weakest preconditions\<close>

lemma wp_return: "wp (return x) Q E w = Q x w"
  by (simp add: wp_def return_def)

lemma wp_raise: "wp (raise e) Q E w = E e w"
  by (simp add: wp_def raise_def)

lemma wp_then_do: "wp (then_do m f) Q E w = wp m (\<lambda>x. wp (f x) Q E) E w"
  by (simp add: wp_def then_do_def split: prod.splits sum.splits)

lemma wp_try_except: "wp (try_except m h) Q E w = wp m Q (\<lambda>e. wp (h e) Q E) w"
  by (simp add: wp_def try_except_def split: prod.splits sum.splits)

lemma wp_try_finally:
  "wp (try_finally m fin) Q E w =
     wp m (\<lambda>x. wp fin (\<lambda>u. Q x) E) (\<lambda>e. wp fin (\<lambda>u. E e) E) w"
  by (simp add: wp_def try_finally_def split: prod.splits sum.splits)

lemma wp_swallow: "wp (swallow m) Q E w = wp m (\<lambda>x. Q ()) (\<lambda>e. Q ()) w"
  by (simp add: wp_def swallow_def split: prod.splits sum.splits)

lemma wp_if: "wp (if b then m1 else m2) Q E w = (if b then wp m1 Q E w else wp m2 Q E w)"
  by simp

lemma wp_call: "wp (call ev ok e) Q E w = (if ok then Q () (emit ev w) else E e (emit ev w))"
  by (simp add: wp_def call_def)

lemma wp_sleep: "wp (sleep n) Q E w = Q () (emit (Slept n) w)"
  by (simp add: wp_def sleep_def)

lemma wp_is_duplicate:
  "wp (is_duplicate h url) Q E w =
     (if extract_video_id h url \<in> ledger w
      then Q True (emit (CheckedDuplicate True) w)
      else Q False (emit (CheckedDuplicate False) w))"
  by (simp add: wp_def is_duplicate_def)

lemma wp_mark_processed:
  "wp (mark_processed h wr url) Q E w =
     Q () (snd (save wr (emit (Marked (extract_video_id h url))
                          (ledger_update (insert (extract_video_id h url)) w))))"
  by (simp add: wp_def mark_processed_def then_do_def save_def)

lemma wp_download_instagram_video:
  "wp (download_instagram_video env h url) Q E w =
     (if download_ok env
      then Q (extract_video_id h url @ ''.'' @ ext env)
             (emit (Ran Download True)
                (files_update (\<lambda>fs. fs(extract_video_id h url @ ''.'' @ ext env \<mapsto> RegularFile)) w))
      else E OSError (emit (Ran Download False) w))"
  by (simp add: wp_def download_instagram_video_def Let_def)

lemma wp_aggressive_compress_step:
  "wp (aggressive_compress_step env p) Q E w =
     (if compress_ok env
      then Q (''compressed_'' @ p)
             (emit (Ran Compress True) (files_update (\<lambda>fs. fs(''compressed_'' @ p \<mapsto> RegularFile)) w))
      else E CalledProcessError (emit (Ran Compress False) w))"
  by (simp add: wp_def aggressive_compress_step_def Let_def)

lemma wp_generate_hls:
  "wp (generate_hls env p vid) Q E w =
     (if hls_ok env
      then Q (''hls/'' @ vid)
             (emit (Ran GenerateHLS True) (files_update (\<lambda>fs. fs(''hls'' \<mapsto> Directory)) w))
      else E CalledProcessError
             (emit (Ran GenerateHLS False) (files_update (\<lambda>fs. fs(''hls'' \<mapsto> Directory)) w)))"
  by (simp add: wp_def generate_hls_def Let_def)

lemma wp_cleanup_local:
  "wp (cleanup_local env) Q E w =
     Q () (emit CleanedUp (files_update (\<lambda>fs p. if remove_ok env p then None else fs p) w))"
  by (simp add: wp_def cleanup_local_def)

lemma wp_download_video:
  "wp (download_video env url) Q E w =
     (if download_ok env
      then Q ((case re_search url of
                 Some video_id \<Rightarrow> ''instagram_'' @ video_id
               | None \<Rightarrow> ''instagram_video_'' @ epoch env) @ ''.'' @ ext env)
             (emit (Ran Download True)
                (files_update
                   (\<lambda>fs. fs((case re_search url of
                                Some video_id \<Rightarrow> ''instagram_'' @ video_id
                              | None \<Rightarrow> ''instagram_video_'' @ epoch env) @ ''.'' @ ext env
                             \<mapsto> RegularFile)) w))
      else E OSError (emit (Ran Download False) w))"
  by (simp add: wp_def download_video_def Let_def)

lemma wp_compress_video_step:
  "wp (compress_video_step env p) Q E w =
     (if compress_ok env
      then Q (''compressed_480p_'' @ p)
             (emit (Ran Compress True)
                (files_update (\<lambda>fs. (fs(''compressed_480p_'' @ p \<mapsto> RegularFile))(p := None)) w))
      else E CalledProcessError (emit (Ran Compress False) w))"
  by (simp add: wp_def compress_video_step_def Let_def)

lemma wp_cleanup_local_files:
  "wp (cleanup_local_files env) Q E w =
     Q () (emit CleanedUp
             (files_update
                (\<lambda>fs p. if fs p = Some RegularFile \<and> remove_ok env p then None else fs p) w))"
  by (simp add: wp_def cleanup_local_files_def)

lemma wp_run_in_executor: "wp (run_in_executor func) Q E w = E AttributeError w"
  by (simp add: wp_def run_in_executor_def raise_def)

lemma wp_new_event_loop:
  "wp (new_event_loop env) Q E w = (if loop_ok env then Q () w else E OSError w)"
  by (simp add: wp_def new_event_loop_def return_def raise_def)

lemma wp_new_bot:
  "wp (new_bot env) Q E w = (if bot_ok env then Q () w else E TelegramError w)"
  by (simp add: wp_def new_bot_def return_def raise_def)

lemma wp_setup_directories:
  "wp (setup_directories env) Q E w = (if mkdir_ok env then Q () w else E OSError w)"
  by (simp add: wp_def setup_directories_def return_def raise_def)

lemma wp_loop_close:
  "wp (loop_close env) Q E w = (if close_ok env then Q () w else E RuntimeError w)"
  by (simp add: wp_def loop_close_def return_def raise_def)

lemmas wp_rules = wp_return wp_raise wp_then_do wp_try_except wp_try_finally wp_swallow wp_if
  wp_call wp_sleep wp_is_duplicate wp_mark_processed wp_download_instagram_video
  wp_aggressive_compress_step wp_generate_hls wp_cleanup_local wp_download_video
  wp_compress_video_step wp_cleanup_local_files wp_run_in_executor wp_new_event_loop
  wp_new_bot wp_loop_close wp_setup_directories send_error_message.simps

lemma if_boolI: "(c \<Longrightarrow> A) \<Longrightarrow> (\<not> c \<Longrightarrow> B) \<Longrightarrow> if c then A else B"
  by simp

lemma wp_post: "wp m (\<lambda>x. P) (\<lambda>e. P) w = P (snd (m w))"
  by (simp add: wp_def split: prod.splits sum.splits)

lemma trace_emit [simp]: "trace (emit ev w) = trace w @ [ev]"
  by (simp add: emit_def)

lemma ledger_emit [simp]: "ledger (emit ev w) = ledger w"
  by (simp add: emit_def)

lemma files_emit [simp]: "files (emit ev w) = files w"
  by (simp add: emit_def)

lemma disk_emit [simp]: "disk (emit ev w) = disk w"
  by (simp add: emit_def)

lemma trace_save [simp]: "trace (snd (save wr w)) = trace w @ [Saved wr]"
  by (cases wr) (simp_all add: save_def)

lemma ledger_save [simp]: "ledger (snd (save wr w)) = ledger w"
  by (cases wr) (simp_all add: save_def)

lemma files_save [simp]: "files (snd (save wr w)) = files w"
  by (cases wr) (simp_all add: save_def)

subsection \<open>Events around the mark\<close>

lemma marks_append [simp]: "marks (xs @ ys) = marks xs @ marks ys"
  by (simp add: marks_def)

lemma work_append [simp]: "work (xs @ ys) = work xs @ work ys"
  by (simp add: work_def)

lemma no_success_append [simp]: "no_success (xs @ ys) \<longleftrightarrow> no_success xs \<and> no_success ys"
  by (auto simp: no_success_def)

lemma marks_Nil_iff: "marks evs = [] \<longleftrightarrow> (\<forall>e\<in>set evs. \<not> is_mark e)"
  by (simp add: marks_def filter_empty_conv)

lemma before_mark_no_marks: "marks pre = [] \<Longrightarrow> before_mark (pre @ post) = pre @ before_mark post"
  by (simp add: before_mark_def marks_Nil_iff takeWhile_append2)

lemma before_mark_marked: "marks pre \<noteq> [] \<Longrightarrow> before_mark (pre @ post) = before_mark pre"
proof -
  assume "marks pre \<noteq> []"
  then obtain e where "e \<in> set pre" "is_mark e"
    by (auto simp: marks_Nil_iff)
  then show ?thesis
    by (auto simp: before_mark_def takeWhile_append1)
qed

lemma before_mark_Marked [simp]: "before_mark (Marked c # post) = []"
  by (simp add: before_mark_def)

lemma no_success_iff: "no_success evs \<longleftrightarrow> (\<forall>b. Notified Success b \<notin> set evs)"
proof
  assume ns: "no_success evs"
  show "\<forall>b. Notified Success b \<notin> set evs"
  proof
    fix b show "Notified Success b \<notin> set evs"
      using ns by (cases b) (simp_all add: no_success_def)
  qed
next
  assume "\<forall>b. Notified Success b \<notin> set evs"
  then show "no_success evs" by (simp add: no_success_def)
qed

lemma good_append_neutral:
  assumes "good chain vid evs" "marks new = []" "Ran Upload True \<notin> set new" "no_success new"
  shows "good chain vid (evs @ new)"
proof (cases "marks evs = []")
  case True
  with assms show ?thesis by (auto simp: good_def)
next
  case False
  with assms(1) have g: "marks evs = [Marked vid]" "suffix chain (work (before_mark evs))"
    "no_success (before_mark evs)"
    by (auto simp: good_def)
  from False have "before_mark (evs @ new) = before_mark evs"
    by (rule before_mark_marked)
  with g assms(2) show ?thesis by (simp add: good_def)
qed

lemma good_append_fresh:
  assumes "good chain vid evs" "marks evs = []" "good chain vid new"
  shows "good chain vid (evs @ new)"
proof -
  from assms(1,2) have e: "Ran Upload True \<notin> set evs" "no_success evs"
    by (auto simp: good_def)
  have bm: "before_mark (evs @ new) = evs @ before_mark new"
    using assms(2) by (rule before_mark_no_marks)
  show ?thesis
  proof (cases "marks new = []")
    case True
    with assms(3) have "Ran Upload True \<notin> set new" "no_success new"
      by (auto simp: good_def)
    with True e assms(2) show ?thesis by (simp add: good_def)
  next
    case False
    with assms(3) have g: "marks new = [Marked vid]" "suffix chain (work (before_mark new))"
      "no_success (before_mark new)"
      by (auto simp: good_def)
    have "suffix chain (work evs @ work (before_mark new))"
      using g(2) by (rule suffix_appendI)
    with g e assms(2) bm show ?thesis by (simp add: good_def)
  qed
qed

lemma inv_step:
  assumes "inv chain vid t0 l0 w"
    and "\<exists>new. trace w' = trace w @ new \<and>
           (marks new = [] \<and> Ran Upload True \<notin> set new \<and> no_success new \<and> ledger w' = ledger w \<or>
            vid \<notin> ledger w \<and> good chain vid new \<and>
              ledger w' = (if marks new = [] then ledger w else insert vid (ledger w)))"
  shows "inv chain vid t0 l0 w'"
proof -
  from assms(1) obtain evs where evs: "trace w = t0 @ evs" "good chain vid evs"
    "ledger w = (if marks evs = [] then l0 else insert vid l0)"
    by (auto simp: inv_def)
  from assms(2) obtain new where new: "trace w' = trace w @ new"
    and cases: "marks new = [] \<and> Ran Upload True \<notin> set new \<and> no_success new \<and> ledger w' = ledger w \<or>
      vid \<notin> ledger w \<and> good chain vid new \<and>
        ledger w' = (if marks new = [] then ledger w else insert vid (ledger w))"
    by blast
  have tr: "trace w' = t0 @ (evs @ new)" using evs(1) new by simp
  from cases show ?thesis
  proof
    assume a: "marks new = [] \<and> Ran Upload True \<notin> set new \<and> no_success new \<and> ledger w' = ledger w"
    then have "good chain vid (evs @ new)"
      using evs(2) by (intro good_append_neutral) simp_all
    moreover have "ledger w' = (if marks (evs @ new) = [] then l0 else insert vid l0)"
      using a evs(3) by simp
    ultimately show ?thesis using tr unfolding inv_def by blast
  next
    assume b: "vid \<notin> ledger w \<and> good chain vid new \<and>
      ledger w' = (if marks new = [] then ledger w else insert vid (ledger w))"
    then have m: "marks evs = []" using evs(3) by (auto split: if_splits)
    then have "good chain vid (evs @ new)"
      using evs(2) b by (intro good_append_fresh) simp_all
    moreover have "ledger w' = (if marks (evs @ new) = [] then l0 else insert vid l0)"
      using b m evs(3) by simp
    ultimately show ?thesis using tr unfolding inv_def by blast
  qed
qed

lemma inv_start: "inv chain vid (trace w) (ledger w) w"
  by (simp add: inv_def good_def marks_def no_success_def)

lemma job_ok_leaf:
  "\<exists>new. trace w' = trace w @ new \<and> good chain vid new \<and>
      ledger w' = (if marks new = [] then ledger w else insert vid (ledger w)) \<Longrightarrow>
   job_ok chain vid w w'"
  by (auto simp: job_ok_def inv_def)

lemma job_ok_wp:
  "job_ok chain vid w (snd (m w)) = wp m (\<lambda>x. job_ok chain vid w) (\<lambda>e. job_ok chain vid w) w"
  by (simp add: wp_post)

lemma job_ok_events:
  assumes "job_ok chain vid w (snd (m w))"
  shows "good chain vid (events_of m w)"
    and "ledger (snd (m w)) =
           (if Marked vid \<in> set (events_of m w) then insert vid (ledger w) else ledger w)"
proof -
  from assms obtain evs where evs: "trace (snd (m w)) = trace w @ evs" "good chain vid evs"
    "ledger (snd (m w)) = (if marks evs = [] then ledger w else insert vid (ledger w))"
    by (auto simp: job_ok_def inv_def)
  have ev: "events_of m w = evs" using evs(1) by (simp add: events_of_def)
  show "good chain vid (events_of m w)" using evs(2) ev by simp
  have "marks evs \<noteq> [] \<longleftrightarrow> Marked vid \<in> set evs"
  proof
    assume "marks evs \<noteq> []"
    with evs(2) have "marks evs = [Marked vid]" by (auto simp: good_def)
    then have "Marked vid \<in> set (marks evs)" by simp
    then show "Marked vid \<in> set evs" by (simp add: marks_def)
  next
    assume "Marked vid \<in> set evs"
    then show "marks evs \<noteq> []" by (force simp: marks_Nil_iff)
  qed
  with evs(3) ev
  show "ledger (snd (m w)) =
          (if Marked vid \<in> set (events_of m w) then insert vid (ledger w) else ledger w)"
    by auto
qed

lemma good_only_marked_after:
  assumes "good chain vid evs"
  shows "only_marked_after chain vid evs"
  unfolding only_marked_after_def
proof (intro conjI allI impI)
  fix pre c post
  assume split: "evs = pre @ Marked c # post"
  then have "marks evs = marks pre @ Marked c # marks post"
    by (simp add: marks_def)
  with assms have eq: "marks pre @ Marked c # marks post = [Marked vid]"
    and g: "suffix chain (work (before_mark evs))" "no_success (before_mark evs)"
    by (auto simp: good_def)
  from eq have m: "marks pre = []" "c = vid" "marks post = []"
    by (cases "marks pre"; simp)+
  have bm: "before_mark evs = pre"
    using before_mark_no_marks [OF m(1), of "Marked c # post"] split by simp
  show "c = vid" by (rule m(2))
  show "suffix chain (work pre)" using g(1) bm by simp
  show "Notified Success b \<notin> set pre" for b
    using g(2) bm no_success_iff by simp
  show "Marked c' \<notin> set pre" for c'
    using m(1) by (auto simp: marks_Nil_iff)
  show "Marked c' \<notin> set post" for c'
    using m(3) by (auto simp: marks_Nil_iff)
next
  assume "Ran Upload True \<in> set evs"
  with assms have "marks evs = [Marked vid]" by (auto simp: good_def)
  then have "Marked vid \<in> set (marks evs)" by simp
  then show "Marked vid \<in> set evs" by (simp add: marks_def)
next
  fix b
  assume "Notified Success b \<in> set evs"
  with assms have "marks evs = [Marked vid]" by (auto simp: good_def no_success_iff)
  then have "Marked vid \<in> set (marks evs)" by simp
  then show "Marked vid \<in> set evs" by (simp add: marks_def)
qed

subsection \<open>Every job keeps the ledger in step with its trace\<close>

lemmas good_eval = good_def marks_def before_mark_def work_def no_success_def main_chain_def
  old_chain_def suffix_to_prefix

lemma job_ok_handle_message:
  "job_ok main_chain (extract_video_id h url) w (snd (handle_message env h url w))"
  unfolding job_ok_wp handle_message_def notify_def upload_hls_step_def
  apply (simp only: wp_rules)
  apply (intro if_boolI)
  apply (rule job_ok_leaf, simp add: good_eval)+
  done

lemma job_ok_bg:
  "job_ok main_chain (extract_video_id h url) w (snd (bg env h url w))"
  unfolding job_ok_wp bg_def notify_def upload_hls_step_def
  apply (simp only: wp_rules)
  apply (intro if_boolI)
  apply (rule job_ok_leaf, simp add: good_eval)+
  done

lemma job_ok_process_instagram_url:
  "job_ok old_chain (extract_video_id h url) w (snd (process_instagram_url env h url w))"
  unfolding job_ok_wp process_instagram_url_def notify_def upload_to_dropbox_def
  apply (simp only: wp_rules)
  apply (intro if_boolI)
  apply (rule job_ok_leaf, simp add: good_eval)+
  done

lemma inv_process_in_thread:
  assumes "inv old_chain (extract_video_id h url) t0 l0 w"
  shows "wp (process_in_thread env h url)
           (\<lambda>x. inv old_chain (extract_video_id h url) t0 l0)
           (\<lambda>e. inv old_chain (extract_video_id h url) t0 l0) w"
  unfolding process_in_thread_def notify_def upload_to_dropbox_def
  apply (simp only: wp_rules)
  apply (intro if_boolI)
  apply (rule inv_step [OF assms], simp add: good_eval)+
  done

lemma attempt_state:
  "snd (attempt envs h url n w) =
     (if loop_ok (envs n) \<and> bot_ok (envs n)
      then snd (process_in_thread (envs n) h url (emit (Slept (n * 2 + 1)) w))
      else emit (Slept (n * 2 + 1)) w)"
  by (simp add: attempt_def then_do_def sleep_def new_event_loop_def new_bot_def loop_close_def
      return_def raise_def split: prod.splits sum.splits)

lemma send_final_error_state:
  "swallow (send_final_error final) w =
     (Inr (),
      if loop_ok final \<and> bot_ok final
      then emit (Notified FinalFailure (notify_ok final FinalFailure)) w else w)"
  by (simp add: swallow_def send_final_error_def then_do_def new_event_loop_def new_bot_def
      loop_close_def notify_def call_def return_def raise_def split: prod.splits sum.splits)

lemma inv_attempt:
  assumes "inv old_chain (extract_video_id h url) t0 l0 w"
  shows "inv old_chain (extract_video_id h url) t0 l0 (snd (attempt envs h url n w))"
proof -
  have s: "inv old_chain (extract_video_id h url) t0 l0 (emit (Slept (n * 2 + 1)) w)"
    by (rule inv_step [OF assms]) (simp add: good_eval)
  from inv_process_in_thread [OF s, of "envs n"]
  have "inv old_chain (extract_video_id h url) t0 l0
          (snd (process_in_thread (envs n) h url (emit (Slept (n * 2 + 1)) w)))"
    by (simp add: wp_post)
  with s show ?thesis unfolding attempt_state by simp
qed

lemma inv_background_loop:
  "inv old_chain (extract_video_id h url) t0 l0 w \<Longrightarrow>
   inv old_chain (extract_video_id h url) t0 l0 (snd (background_loop envs final h url n w))"
proof (induction envs final h url n w rule: background_loop.induct)
  case (1 envs final h url n w)
  show ?case
  proof (cases "n < max_retries")
    case False
    with "1.prems" show ?thesis by simp
  next
    case True
    obtain r w' where a: "attempt envs h url n w = (r, w')"
      by (cases "attempt envs h url n w")
    have w': "inv old_chain (extract_video_id h url) t0 l0 w'"
      using inv_attempt [OF "1.prems", of envs n] a by simp
    show ?thesis
    proof (cases r)
      case (Inr u)
      with True a w' show ?thesis by simp
    next
      case (Inl e)
      show ?thesis
      proof (cases "max_retries \<le> n + 1")
        case last: True
        have "inv old_chain (extract_video_id h url) t0 l0
                (emit (Notified FinalFailure (notify_ok final FinalFailure)) w')"
          by (rule inv_step [OF w']) (simp add: good_eval)
        with True a Inl last w' show ?thesis
          by (simp add: send_final_error_state)
      next
        case more: False
        from "1.IH" [OF True a [symmetric] Inl more w'] True a Inl more
        show ?thesis by simp
      qed
    qed
  qed
qed

lemma job_ok_background_process:
  "job_ok old_chain (extract_video_id h url) w (snd (background_process envs final h url w))"
  unfolding background_process_def job_ok_def
  by (rule inv_background_loop [OF inv_start])

lemma handle_message_ledger:
  "ledger (snd (handle_message env h url w)) = ledger w \<and>
   marks (events_of (handle_message env h url) w) = []"
proof -
  have "wp (handle_message env h url)
          (\<lambda>x w'. \<exists>p. trace w' = trace w @ p \<and> marks p = [] \<and> ledger w' = ledger w)
          (\<lambda>e w'. \<exists>p. trace w' = trace w @ p \<and> marks p = [] \<and> ledger w' = ledger w) w"
    unfolding handle_message_def notify_def
    apply (simp only: wp_rules)
    apply (intro if_boolI)
    apply (simp_all add: marks_def)
    done
  then obtain p where "trace (snd (handle_message env h url w)) = trace w @ p" "marks p = []"
    "ledger (snd (handle_message env h url w)) = ledger w"
    unfolding wp_post by blast
  then show ?thesis by (simp add: events_of_def)
qed

subsection \<open>The retry loop, unrolled\<close>

lemma background_loop_step:
  assumes "n < 3"
  shows "background_loop envs final h url n w =
      (if \<not> isl (fst (attempt envs h url n w)) then (Inr (), snd (attempt envs h url n w))
       else if 3 \<le> n + 1
         then swallow (send_final_error final) (snd (attempt envs h url n w))
         else background_loop envs final h url (n + 1) (snd (attempt envs h url n w)))"
proof -
  obtain r w' where a: "attempt envs h url n w = (r, w')"
    by (cases "attempt envs h url n w")
  show ?thesis
    using assms
    by (subst background_loop.simps, cases r)
       (simp_all add: a max_retries_def)
qed

lemma background_process_unrolled:
  "background_process envs final h url w =
     (let a1 = attempt envs h url 0 w in
      if \<not> isl (fst a1) then (Inr (), snd a1)
      else
        let a2 = attempt envs h url 1 (snd a1) in
        if \<not> isl (fst a2) then (Inr (), snd a2)
        else
          let a3 = attempt envs h url 2 (snd a2) in
          if \<not> isl (fst a3) then (Inr (), snd a3)
          else swallow (send_final_error final) (snd a3))"
proof -
  have s0: "background_loop envs final h url 0 w' =
      (if \<not> isl (fst (attempt envs h url 0 w')) then (Inr (), snd (attempt envs h url 0 w'))
       else background_loop envs final h url 1 (snd (attempt envs h url 0 w')))" for w'
    using background_loop_step [of 0 envs final h url w'] by simp
  have s1: "background_loop envs final h url 1 w' =
      (if \<not> isl (fst (attempt envs h url 1 w')) then (Inr (), snd (attempt envs h url 1 w'))
       else background_loop envs final h url 2 (snd (attempt envs h url 1 w')))" for w'
    by (subst background_loop_step) (simp_all add: numeral_2_eq_2)
  have s2: "background_loop envs final h url 2 w' =
      (if \<not> isl (fst (attempt envs h url 2 w')) then (Inr (), snd (attempt envs h url 2 w'))
       else swallow (send_final_error final) (snd (attempt envs h url 2 w')))"
    for w'
    using background_loop_step [of 2 envs final h url w'] by simp
  show ?thesis
    unfolding background_process_def Let_def s0 s1 s2 ..
qed

subsection \<open>Example runs\<close>

lemma example_video_id: "extract_video_id h example_url = ''abc123''"
  unfolding example_url_def extract_video_id_def by code_simp

lemma example_re_search: "re_search example_url = Some ''abc123''"
  unfolding example_url_def by code_simp

lemma example_is_instagram: "sublist ''instagram.com'' example_url"
  unfolding example_url_def by code_simp

lemmas run_defs =
  handle_message_def bg_def process_instagram_url_def process_in_thread_def attempt_def
  notify_def sleep_def download_instagram_video_def aggressive_compress_step_def
  generate_hls_def upload_hls_step_def cleanup_local_def download_video_def
  compress_video_step_def upload_to_dropbox_def cleanup_local_files_def
  run_in_executor_def new_event_loop_def new_bot_def loop_close_def send_final_error_def
  setup_directories_def
  is_duplicate_def mark_processed_def save_def call_def emit_def
  then_do_def try_except_def try_finally_def swallow_def return_def raise_def
  events_of_def all_ok_def fresh_def fails_until_def known_def Let_def
  example_video_id example_re_search example_is_instagram

subsection \<open>C1: the ledger is written only after the pipeline\<close>

text \<open>
  C1. In \<open>bg\<close> of \<open>main.py\<close> and in \<open>process_instagram_url\<close> and \<open>background_process\<close> of
  \<open>instagram_to_HLS_dropbox.py\<close>, whatever the outcomes of the external calls and whatever
  the ledger held before: an identifier is added to the ledger only directly after
  download, compression, (packaging,) and upload have succeeded in this order, it is the
  identifier of the job's URL, it is added at most once and before any success
  notification, and a job that uploaded successfully or notified success has added it.
  The in-memory set afterwards is the set before, plus that identifier if it was added.
  \<open>handle_message\<close> of \<open>main.py\<close> never runs a step and never adds an identifier.
\<close>

theorem marked_only_after_pipeline:
  "only_marked_after main_chain (extract_video_id h url) (events_of (handle_message env h url) w) \<and>
   marks (events_of (handle_message env h url) w) = [] \<and>
   ledger (snd (handle_message env h url w)) = ledger w \<and>
   only_marked_after main_chain (extract_video_id h url) (events_of (bg env h url) w) \<and>
   ledger (snd (bg env h url w)) =
     (if Marked (extract_video_id h url) \<in> set (events_of (bg env h url) w)
      then insert (extract_video_id h url) (ledger w) else ledger w) \<and>
   only_marked_after old_chain (extract_video_id h url)
     (events_of (process_instagram_url env h url) w) \<and>
   ledger (snd (process_instagram_url env h url w)) =
     (if Marked (extract_video_id h url) \<in> set (events_of (process_instagram_url env h url) w)
      then insert (extract_video_id h url) (ledger w) else ledger w) \<and>
   only_marked_after old_chain (extract_video_id h url)
     (events_of (background_process envs final h url) w) \<and>
   ledger (snd (background_process envs final h url w)) =
     (if Marked (extract_video_id h url)
           \<in> set (events_of (background_process envs final h url) w)
      then insert (extract_video_id h url) (ledger w) else ledger w)"
proof -
  note a = job_ok_events [where m = "handle_message env h url" and w = w,
      OF job_ok_handle_message]
  note b = job_ok_events [where m = "bg env h url" and w = w, OF job_ok_bg]
  note c = job_ok_events [where m = "process_instagram_url env h url" and w = w,
      OF job_ok_process_instagram_url]
  note d = job_ok_events [where m = "background_process envs final h url" and w = w,
      OF job_ok_background_process]
  note e = handle_message_ledger [of env h url w]
  show ?thesis
    using e [THEN conjunct1] e [THEN conjunct2] b(2) c(2) d(2)
      good_only_marked_after [OF a(1)] good_only_marked_after [OF b(1)]
      good_only_marked_after [OF c(1)] good_only_marked_after [OF d(1)]
    by (intro conjI)
qed

theorem marked_only_after_pipeline_witness:
  "events_of (bg all_ok md5_stub example_url) fresh =
     [Ran Download True, Ran Compress True, Ran GenerateHLS True, Ran Upload True] @
     Marked ''abc123'' # [Saved Written, CleanedUp] \<and>
   suffix main_chain
     (work [Ran Download True, Ran Compress True, Ran GenerateHLS True, Ran Upload True]) \<and>
   Marked ''abc123'' \<notin> set [Saved Written, CleanedUp] \<and>
   ledger (snd (bg all_ok md5_stub example_url fresh)) = {''abc123''} \<and>
   ledger (snd (bg (all_ok\<lparr>upload_ok := False\<rparr>) md5_stub example_url fresh)) = {} \<and>
   ledger (snd (process_instagram_url all_ok md5_stub example_url fresh)) = {''abc123''} \<and>
   ledger (snd (background_process (fails_until 1) all_ok md5_stub example_url fresh)) =
     {''abc123''} \<and>
   ledger (snd (handle_message all_ok md5_stub example_url fresh)) = {}"
proof -
  let ?pre = "[Ran Download True, Ran Compress True, Ran GenerateHLS True, Ran Upload True]"
  let ?post = "[Saved Written, CleanedUp]"
  have ev: "events_of (bg all_ok md5_stub example_url) fresh = ?pre @ Marked ''abc123'' # ?post"
    by (simp add: run_defs)
  have ev': "events_of (bg (all_ok\<lparr>upload_ok := False\<rparr>) md5_stub example_url) fresh =
      [Ran Download True, Ran Compress True, Ran GenerateHLS True, Ran Upload False]"
    by (simp add: run_defs)
  have old: "Marked ''abc123'' \<in>
      set (events_of (process_instagram_url all_ok md5_stub example_url) fresh)"
    by (simp add: run_defs)
  have retried: "Marked ''abc123'' \<in>
      set (events_of (background_process (fails_until 1) all_ok md5_stub example_url) fresh)"
    unfolding events_of_def background_process_unrolled by (simp add: run_defs)
  note t = marked_only_after_pipeline [where h = md5_stub and url = example_url
      and env = all_ok and w = fresh and envs = "fails_until 1" and final = all_ok,
      unfolded example_video_id]
  note t' = marked_only_after_pipeline [where h = md5_stub and url = example_url
      and env = "all_ok\<lparr>upload_ok := False\<rparr>" and w = fresh and envs = "fails_until 1"
      and final = all_ok, unfolded example_video_id]
  from t have "only_marked_after main_chain ''abc123'' (?pre @ Marked ''abc123'' # ?post)"
    unfolding ev by blast
  then have "suffix main_chain (work ?pre)" "Marked ''abc123'' \<notin> set ?post"
    unfolding only_marked_after_def by blast+
  moreover from t have "ledger (snd (bg all_ok md5_stub example_url fresh)) = {''abc123''}"
    unfolding ev by (simp add: fresh_def)
  moreover from t' have
    "ledger (snd (bg (all_ok\<lparr>upload_ok := False\<rparr>) md5_stub example_url fresh)) = {}"
    unfolding ev' by (simp add: fresh_def)
  moreover from t old have
    "ledger (snd (process_instagram_url all_ok md5_stub example_url fresh)) = {''abc123''}"
    by (simp add: fresh_def)
  moreover from t retried have
    "ledger (snd (background_process (fails_until 1) all_ok md5_stub example_url fresh)) =
       {''abc123''}"
    by (simp add: fresh_def)
  moreover from t have "ledger (snd (handle_message all_ok md5_stub example_url fresh)) = {}"
    by (simp add: fresh_def)
  ultimately show ?thesis using ev by (intro conjI)
qed

subsection \<open>C2: the duplicate check\<close>

text \<open>
  C2 fails on \<open>bg\<close>, the job of the HTTP endpoint of \<open>main.py\<close> (lines 529-541): it never calls
  \<open>is_duplicate\<close>. With \<open>abc123\<close> already in the ledger, a request for
  \<open>https://www.instagram.com/reel/abc123/\<close> downloads, compresses, packages and uploads
  again. \<open>handle_message\<close> of the same file and both jobs of the other file check the
  ledger first and stop.
\<close>

theorem bg_skips_duplicate_check:
  "''abc123'' \<in> ledger known \<and>
   events_of (bg all_ok md5_stub example_url) known =
     [Ran Download True, Ran Compress True, Ran GenerateHLS True, Ran Upload True,
      Marked ''abc123'', Saved Written, CleanedUp] \<and>
   events_of (handle_message all_ok md5_stub example_url) known =
     [Notified Starting True, CheckedDuplicate True, Notified AlreadyProcessed True] \<and>
   events_of (process_instagram_url all_ok md5_stub example_url) known =
     [CheckedDuplicate True, Notified AlreadyProcessed True] \<and>
   events_of (process_in_thread all_ok md5_stub example_url) known =
     [CheckedDuplicate True, Notified AlreadyProcessed True]"
  by (simp add: run_defs)

subsection \<open>C3: retries\<close>

lemma wp_events:
  assumes "wp m (\<lambda>x w'. \<exists>p. trace w' = trace w @ p \<and> P p)
             (\<lambda>e w'. \<exists>p. trace w' = trace w @ p \<and> P p) w"
  shows "P (events_of m w)"
proof -
  from assms obtain p where "trace (snd (m w)) = trace w @ p" "P p"
    unfolding wp_post by blast
  then show ?thesis by (simp add: events_of_def)
qed

lemma single_run_handle_message:
  "wp (handle_message env h url)
     (\<lambda>x w'. \<exists>p. trace w' = trace w @ p \<and> ((\<forall>s. runs s p = []) \<and> sleeps p = []))
     (\<lambda>e w'. \<exists>p. trace w' = trace w @ p \<and> ((\<forall>s. runs s p = []) \<and> sleeps p = [])) w"
  unfolding handle_message_def notify_def
  apply (simp only: wp_rules)
  apply (intro if_boolI)
  apply (simp_all add: runs_def sleeps_def)
  done

lemma single_run_bg:
  "wp (bg env h url)
     (\<lambda>x w'. \<exists>p. trace w' = trace w @ p \<and> ((\<forall>s. length (runs s p) \<le> 1) \<and> sleeps p = []))
     (\<lambda>e w'. \<exists>p. trace w' = trace w @ p \<and> ((\<forall>s. length (runs s p) \<le> 1) \<and> sleeps p = [])) w"
  unfolding bg_def notify_def upload_hls_step_def
  apply (simp only: wp_rules)
  apply (intro if_boolI)
  apply (simp_all add: runs_def sleeps_def)
  done

lemma single_run_process_instagram_url:
  "wp (process_instagram_url env h url)
     (\<lambda>x w'. \<exists>p. trace w' = trace w @ p \<and>
        ((\<forall>s. length (runs s p) \<le> 1) \<and> prefix (sleeps p) [0, 2, 4] \<and>
         steps_after_sleep p = []))
     (\<lambda>e w'. \<exists>p. trace w' = trace w @ p \<and>
        ((\<forall>s. length (runs s p) \<le> 1) \<and> prefix (sleeps p) [0, 2, 4] \<and>
         steps_after_sleep p = [])) w"
  unfolding process_instagram_url_def notify_def upload_to_dropbox_def
  apply (simp only: wp_rules)
  apply (intro if_boolI)
  apply (simp_all add: runs_def sleeps_def steps_after_sleep_def)
  done

lemma quiet_process_in_thread:
  "wp (process_in_thread env h url)
     (\<lambda>x w'. \<exists>p. trace w' = trace w @ p \<and> sleeps p = [] \<and> finals p = [] \<and>
                length (checks p) = 1)
     (\<lambda>e w'. \<exists>p. trace w' = trace w @ p \<and> sleeps p = [] \<and> finals p = [] \<and>
                length (checks p) = 1) w"
  unfolding process_in_thread_def notify_def upload_to_dropbox_def
  apply (simp only: wp_rules)
  apply (intro if_boolI)
  apply (simp_all add: sleeps_def finals_def checks_def)
  done

lemma attempt_events:
  "\<exists>p. trace (snd (attempt envs h url n w)) = trace w @ Slept (n * 2 + 1) # p \<and>
       sleeps p = [] \<and> finals p = [] \<and>
       length (checks p) = (if loop_ok (envs n) \<and> bot_ok (envs n) then 1 else 0)"
proof (cases "loop_ok (envs n) \<and> bot_ok (envs n)")
  case False
  then have "trace (snd (attempt envs h url n w)) = trace w @ Slept (n * 2 + 1) # []"
    by (auto simp: attempt_state)
  with False show ?thesis
    by (intro exI [of _ "[]"]) (simp add: sleeps_def finals_def checks_def)
next
  case True
  let ?w1 = "emit (Slept (n * 2 + 1)) w"
  from quiet_process_in_thread [of "envs n" h url ?w1]
  obtain p where "trace (snd (process_in_thread (envs n) h url ?w1)) = trace ?w1 @ p"
    "sleeps p = []" "finals p = []" "length (checks p) = 1"
    unfolding wp_post by blast
  with True show ?thesis
    unfolding attempt_state by (intro exI [of _ p]) simp
qed

lemma sleeps_simps [simp]:
  "sleeps [] = []" "sleeps (Slept n # evs) = n # sleeps evs"
  "sleeps (Notified x b # evs) = sleeps evs" "sleeps (xs @ ys) = sleeps xs @ sleeps ys"
  by (simp_all add: sleeps_def)

lemma finals_simps [simp]:
  "finals [] = []" "finals (Slept n # evs) = finals evs"
  "finals (Notified FinalFailure b # evs) = Notified FinalFailure b # finals evs"
  "finals (xs @ ys) = finals xs @ finals ys"
  by (cases b; simp add: finals_def)+

lemma checks_simps [simp]:
  "checks [] = []" "checks (Slept n # evs) = checks evs"
  "checks (Notified x b # evs) = checks evs" "checks (xs @ ys) = checks xs @ checks ys"
  by (simp_all add: checks_def)

lemma all_less_3: "(\<forall>i<3. P i) \<longleftrightarrow> P 0 \<and> P 1 \<and> P (2::nat)"
  by (auto simp: numeral_3_eq_3 numeral_2_eq_2 less_Suc_eq)

lemma retries_core:
  assumes a1: "a1 = attempt envs h url 0 w"
    and a2: "a2 = attempt envs h url 1 (snd a1)"
    and a3: "a3 = attempt envs h url 2 (snd a2)"
    and r: "r = background_process envs final h url w"
    and evs: "evs = events_of (background_process envs final h url) w"
  shows "fst r = Inr () \<and>
       length (checks evs) \<le> length (sleeps evs) \<and>
       ((\<forall>i<3. loop_ok (envs i) \<and> bot_ok (envs i)) \<longrightarrow>
          length (checks evs) = length (sleeps evs)) \<and>
       (\<not> isl (fst a1) \<longrightarrow> snd r = snd a1 \<and> sleeps evs = [1] \<and> finals evs = []) \<and>
       (isl (fst a1) \<and> \<not> isl (fst a2) \<longrightarrow>
          snd r = snd a2 \<and> sleeps evs = [1, 3] \<and> finals evs = []) \<and>
       (isl (fst a1) \<and> isl (fst a2) \<and> \<not> isl (fst a3) \<longrightarrow>
          snd r = snd a3 \<and> sleeps evs = [1, 3, 5] \<and> finals evs = []) \<and>
       (isl (fst a1) \<and> isl (fst a2) \<and> isl (fst a3) \<longrightarrow>
          r = swallow (send_final_error final) (snd a3) \<and>
          sleeps evs = [1, 3, 5] \<and>
          finals evs =
            (if loop_ok final \<and> bot_ok final
             then [Notified FinalFailure (notify_ok final FinalFailure)] else []))"
proof -
  from attempt_events [of envs h url 0 w] obtain p1 where
    p1: "trace (snd a1) = trace w @ Slept 1 # p1" "sleeps p1 = []" "finals p1 = []"
      "length (checks p1) = (if loop_ok (envs 0) \<and> bot_ok (envs 0) then 1 else 0)"
    unfolding a1 by auto
  from attempt_events [of envs h url 1 "snd a1"] obtain p2 where
    p2: "trace (snd a2) = trace (snd a1) @ Slept 3 # p2" "sleeps p2 = []" "finals p2 = []"
      "length (checks p2) = (if loop_ok (envs 1) \<and> bot_ok (envs 1) then 1 else 0)"
    unfolding a2 by auto
  from attempt_events [of envs h url 2 "snd a2"] obtain p3 where
    p3: "trace (snd a3) = trace (snd a2) @ Slept 5 # p3" "sleeps p3 = []" "finals p3 = []"
      "length (checks p3) = (if loop_ok (envs 2) \<and> bot_ok (envs 2) then 1 else 0)"
    unfolding a3 by auto
  define fin where "fin =
    (if loop_ok final \<and> bot_ok final
     then [Notified FinalFailure (notify_ok final FinalFailure)] else [])"
  have r_eq: "r =
     (if \<not> isl (fst a1) then (Inr (), snd a1)
      else if \<not> isl (fst a2) then (Inr (), snd a2)
      else if \<not> isl (fst a3) then (Inr (), snd a3)
      else swallow (send_final_error final) (snd a3))"
    by (simp only: r a1 a2 a3 background_process_unrolled Let_def)
  have evs_eq: "evs = drop (length (trace w)) (trace (snd r))"
    by (simp only: evs r events_of_def)
  have t1: "drop (length (trace w)) (trace (snd a1)) = Slept 1 # p1"
    by (simp only: p1(1) append_eq_conv_conj drop_append length_append) simp
  have t2: "drop (length (trace w)) (trace (snd a2)) = Slept 1 # p1 @ Slept 3 # p2"
    by (simp only: p2(1) p1(1)) simp
  have t3: "drop (length (trace w)) (trace (snd a3)) =
      Slept 1 # p1 @ Slept 3 # p2 @ Slept 5 # p3"
    by (simp only: p3(1) p2(1) p1(1)) simp
  have f4: "trace (snd (swallow (send_final_error final) (snd a3))) = trace (snd a3) @ fin"
    "fst (swallow (send_final_error final) (snd a3)) = Inr ()"
    unfolding send_final_error_state fin_def by simp_all
  have t4: "drop (length (trace w)) (trace (snd (swallow (send_final_error final) (snd a3)))) =
      Slept 1 # p1 @ Slept 3 # p2 @ Slept 5 # p3 @ fin"
    by (simp only: f4(1) p3(1) p2(1) p1(1)) simp
  have ffin: "finals fin = fin" "sleeps fin = []" "checks fin = []"
    unfolding fin_def by simp_all
  consider (one) "\<not> isl (fst a1)" | (two) "isl (fst a1)" "\<not> isl (fst a2)"
    | (three) "isl (fst a1)" "isl (fst a2)" "\<not> isl (fst a3)"
    | (failed) "isl (fst a1)" "isl (fst a2)" "isl (fst a3)"
    by blast
  then show ?thesis
  proof cases
    case one
    then have "r = (Inr (), snd a1)" "evs = Slept 1 # p1"
      using r_eq evs_eq t1 by simp_all
    with one p1 show ?thesis by (simp add: all_less_3)
  next
    case two
    then have "r = (Inr (), snd a2)" "evs = Slept 1 # p1 @ Slept 3 # p2"
      using r_eq evs_eq t2 by simp_all
    with two p1 p2 show ?thesis by (simp add: all_less_3)
  next
    case three
    then have "r = (Inr (), snd a3)" "evs = Slept 1 # p1 @ Slept 3 # p2 @ Slept 5 # p3"
      using r_eq evs_eq t3 by simp_all
    with three p1 p2 p3 show ?thesis by (simp add: all_less_3)
  next
    case failed
    then have re: "r = swallow (send_final_error final) (snd a3)"
      "evs = Slept 1 # p1 @ Slept 3 # p2 @ Slept 5 # p3 @ fin"
      using r_eq evs_eq t4 by simp_all
    from failed re f4(2) ffin p1(2-4) p2(2-4) p3(2-4) show ?thesis
      unfolding fin_def [symmetric] by (simp add: all_less_3)
  qed
qed

text \<open>
  C3, as stated, fails on every job but one. \<open>handle_message\<close> and \<open>bg\<close> of \<open>main.py\<close> and
  \<open>process_instagram_url\<close> of \<open>instagram_to_HLS_dropbox.py\<close> run the pipeline once: when
  the first step raises (in \<open>handle_message\<close> it always does) there is no second attempt
  and no backoff (\<open>process_instagram_url\<close> sleeps only before sending its failure message).
\<close>

theorem single_attempt_on_failure:
  "events_of (handle_message all_ok md5_stub example_url) fresh =
     [Notified Starting True, CheckedDuplicate False, Notified (Progress Download) True,
      Notified Failure True] \<and>
   events_of (bg (all_ok\<lparr>download_ok := False\<rparr>) md5_stub example_url) fresh =
     [Ran Download False] \<and>
   events_of (process_instagram_url (all_ok\<lparr>download_ok := False\<rparr>) md5_stub example_url)
       fresh =
     [CheckedDuplicate False, Notified Starting True, Ran Download False, Slept 0,
      Notified Failure True, CleanedUp]"
  by (simp add: run_defs)

text \<open>
  C3, amended. Only \<open>background_process\<close>, the job of the HTTP endpoint of
  \<open>instagram_to_HLS_dropbox.py\<close>, retries. It always returns normally. It makes at most
  three attempts and sleeps 1, 3 and 5 seconds before the first, second and third. An
  attempt creates an event loop and a \<open>Bot\<close>, runs the whole of \<open>process_in_thread\<close>, from the
  duplicate check on, and closes the loop; it fails when any of these raises. The job
  stops after the first attempt that does not fail: a job whose first two attempts fail
  and whose third does not ends in the state of the third attempt, with no final
  notification. After three failed attempts it tries once to send a final failure
  notification (if a loop and a \<open>Bot\<close> can be created for it), and ignores every failure of
  that. \<open>handle_message\<close> of \<open>main.py\<close> runs no step at all and never sleeps; \<open>bg\<close> of
  \<open>main.py\<close> runs each step at most once and never sleeps; \<open>process_instagram_url\<close> runs
  each step at most once, sleeps at most 0, 2 and 4 seconds, and runs no step after a sleep.
\<close>

theorem background_process_retries:
  "(let a1 = attempt envs h url 0 w;
        a2 = attempt envs h url 1 (snd a1);
        a3 = attempt envs h url 2 (snd a2);
        r = background_process envs final h url w;
        evs = events_of (background_process envs final h url) w
    in fst r = Inr () \<and>
       length (checks evs) \<le> length (sleeps evs) \<and>
       ((\<forall>i<3. loop_ok (envs i) \<and> bot_ok (envs i)) \<longrightarrow>
          length (checks evs) = length (sleeps evs)) \<and>
       (\<not> isl (fst a1) \<longrightarrow> snd r = snd a1 \<and> sleeps evs = [1] \<and> finals evs = []) \<and>
       (isl (fst a1) \<and> \<not> isl (fst a2) \<longrightarrow>
          snd r = snd a2 \<and> sleeps evs = [1, 3] \<and> finals evs = []) \<and>
       (isl (fst a1) \<and> isl (fst a2) \<and> \<not> isl (fst a3) \<longrightarrow>
          snd r = snd a3 \<and> sleeps evs = [1, 3, 5] \<and> finals evs = []) \<and>
       (isl (fst a1) \<and> isl (fst a2) \<and> isl (fst a3) \<longrightarrow>
          r = swallow (send_final_error final) (snd a3) \<and>
          sleeps evs = [1, 3, 5] \<and>
          finals evs =
            (if loop_ok final \<and> bot_ok final
             then [Notified FinalFailure (notify_ok final FinalFailure)] else []))) \<and>
   (\<forall>s. runs s (events_of (handle_message env h url) w) = []) \<and>
   sleeps (events_of (handle_message env h url) w) = [] \<and>
   (\<forall>s. length (runs s (events_of (bg env h url) w)) \<le> 1) \<and>
   sleeps (events_of (bg env h url) w) = [] \<and>
   (\<forall>s. length (runs s (events_of (process_instagram_url env h url) w)) \<le> 1) \<and>
   prefix (sleeps (events_of (process_instagram_url env h url) w)) [0, 2, 4] \<and>
   steps_after_sleep (events_of (process_instagram_url env h url) w) = []"
proof -
  note a = wp_events [OF single_run_handle_message [of env h url w]]
  note b = wp_events [OF single_run_bg [of env h url w]]
  note c = wp_events [OF single_run_process_instagram_url [of env h url w]]
  have "let a1 = attempt envs h url 0 w;
        a2 = attempt envs h url 1 (snd a1);
        a3 = attempt envs h url 2 (snd a2);
        r = background_process envs final h url w;
        evs = events_of (background_process envs final h url) w
    in fst r = Inr () \<and>
       length (checks evs) \<le> length (sleeps evs) \<and>
       ((\<forall>i<3. loop_ok (envs i) \<and> bot_ok (envs i)) \<longrightarrow>
          length (checks evs) = length (sleeps evs)) \<and>
       (\<not> isl (fst a1) \<longrightarrow> snd r = snd a1 \<and> sleeps evs = [1] \<and> finals evs = []) \<and>
       (isl (fst a1) \<and> \<not> isl (fst a2) \<longrightarrow>
          snd r = snd a2 \<and> sleeps evs = [1, 3] \<and> finals evs = []) \<and>
       (isl (fst a1) \<and> isl (fst a2) \<and> \<not> isl (fst a3) \<longrightarrow>
          snd r = snd a3 \<and> sleeps evs = [1, 3, 5] \<and> finals evs = []) \<and>
       (isl (fst a1) \<and> isl (fst a2) \<and> isl (fst a3) \<longrightarrow>
          r = swallow (send_final_error final) (snd a3) \<and>
          sleeps evs = [1, 3, 5] \<and>
          finals evs =
            (if loop_ok final \<and> bot_ok final
             then [Notified FinalFailure (notify_ok final FinalFailure)] else []))"
    unfolding Let_def by (rule retries_core) (rule refl)+
  with a b c show ?thesis by (intro conjI) blast+
qed

theorem background_process_retries_witness:
  "isl (fst (attempt (fails_until 2) md5_stub example_url 0 fresh)) \<and>
   isl (fst (attempt (fails_until 2) md5_stub example_url 1
     (snd (attempt (fails_until 2) md5_stub example_url 0 fresh)))) \<and>
   \<not> isl (fst (attempt (fails_until 2) md5_stub example_url 2
     (snd (attempt (fails_until 2) md5_stub example_url 1
       (snd (attempt (fails_until 2) md5_stub example_url 0 fresh)))))) \<and>
   fst (background_process (fails_until 2) all_ok md5_stub example_url fresh) = Inr () \<and>
   sleeps (events_of (background_process (fails_until 2) all_ok md5_stub example_url) fresh) =
     [1, 3, 5] \<and>
   finals (events_of (background_process (fails_until 2) all_ok md5_stub example_url) fresh) =
     [] \<and>
   length (checks
     (events_of (background_process (fails_until 2) all_ok md5_stub example_url) fresh)) = 3 \<and>
   isl (fst (attempt (fails_until 3) md5_stub example_url 0 fresh)) \<and>
   isl (fst (attempt (fails_until 3) md5_stub example_url 1
     (snd (attempt (fails_until 3) md5_stub example_url 0 fresh)))) \<and>
   isl (fst (attempt (fails_until 3) md5_stub example_url 2
     (snd (attempt (fails_until 3) md5_stub example_url 1
       (snd (attempt (fails_until 3) md5_stub example_url 0 fresh)))))) \<and>
   sleeps (events_of (background_process (fails_until 3) all_ok md5_stub example_url) fresh) =
     [1, 3, 5] \<and>
   finals (events_of (background_process (fails_until 3) all_ok md5_stub example_url) fresh) =
     [Notified FinalFailure True] \<and>
   \<not> isl (fst (attempt (fails_until 0) md5_stub example_url 0 fresh)) \<and>
   sleeps (events_of (background_process (fails_until 0) all_ok md5_stub example_url) fresh) =
     [1] \<and>
   isl (fst (attempt (fails_until 1) md5_stub example_url 0 fresh)) \<and>
   \<not> isl (fst (attempt (fails_until 1) md5_stub example_url 1
     (snd (attempt (fails_until 1) md5_stub example_url 0 fresh)))) \<and>
   sleeps (events_of (background_process (fails_until 1) all_ok md5_stub example_url) fresh) =
     [1, 3] \<and>
   sleeps (events_of (bg (all_ok\<lparr>download_ok := False\<rparr>) md5_stub example_url) fresh) = [] \<and>
   length (runs Download
     (events_of (bg (all_ok\<lparr>download_ok := False\<rparr>) md5_stub example_url) fresh)) \<le> 1"
proof -
  let ?a1 = "\<lambda>k. attempt (fails_until k) md5_stub example_url 0 fresh"
  let ?a2 = "\<lambda>k. attempt (fails_until k) md5_stub example_url 1 (snd (?a1 k))"
  let ?a3 = "\<lambda>k. attempt (fails_until k) md5_stub example_url 2 (snd (?a2 k))"
  let ?evs = "\<lambda>k. events_of (background_process (fails_until k) all_ok md5_stub example_url) fresh"
  have a: "isl (fst (?a1 2))" "isl (fst (?a2 2))" "\<not> isl (fst (?a3 2))"
    by (simp_all add: run_defs)
  have b: "isl (fst (?a1 3))" "isl (fst (?a2 3))" "isl (fst (?a3 3))"
    by (simp_all add: run_defs)
  have c: "\<not> isl (fst (?a1 0))"
    by (simp add: run_defs)
  have d: "isl (fst (?a1 1))" "\<not> isl (fst (?a2 1))"
    by (simp_all add: run_defs)
  have ok: "\<forall>i<3. loop_ok (fails_until 2 i) \<and> bot_ok (fails_until 2 i)"
    "loop_ok all_ok \<and> bot_ok all_ok" "notify_ok all_ok FinalFailure"
    by (simp_all add: fails_until_def all_ok_def)
  note r2 = background_process_retries [where envs = "fails_until 2" and h = md5_stub
      and url = example_url and w = fresh and final = all_ok
      and env = "all_ok\<lparr>download_ok := False\<rparr>", unfolded Let_def]
  note r3 = background_process_retries [where envs = "fails_until 3" and h = md5_stub
      and url = example_url and w = fresh and final = all_ok
      and env = "all_ok\<lparr>download_ok := False\<rparr>", unfolded Let_def]
  note r0 = background_process_retries [where envs = "fails_until 0" and h = md5_stub
      and url = example_url and w = fresh and final = all_ok
      and env = "all_ok\<lparr>download_ok := False\<rparr>", unfolded Let_def]
  note r1 = background_process_retries [where envs = "fails_until 1" and h = md5_stub
      and url = example_url and w = fresh and final = all_ok
      and env = "all_ok\<lparr>download_ok := False\<rparr>", unfolded Let_def]
  from r2 a have "fst (background_process (fails_until 2) all_ok md5_stub example_url fresh) = Inr ()"
    "sleeps (?evs 2) = [1, 3, 5]" "finals (?evs 2) = []"
    by blast+
  moreover from r2 ok(1) have "length (checks (?evs 2)) = length (sleeps (?evs 2))"
    by blast
  moreover from r3 b ok(2,3) have "sleeps (?evs 3) = [1, 3, 5]"
    "finals (?evs 3) = [Notified FinalFailure True]"
    by simp_all
  moreover from r0 c have "sleeps (?evs 0) = [1]"
    by blast
  moreover from r1 d have "sleeps (?evs 1) = [1, 3]"
    by blast
  moreover from r2 have
    "sleeps (events_of (bg (all_ok\<lparr>download_ok := False\<rparr>) md5_stub example_url) fresh) = []"
    "length (runs Download
       (events_of (bg (all_ok\<lparr>download_ok := False\<rparr>) md5_stub example_url) fresh)) \<le> 1"
    by blast+
  ultimately show ?thesis using a b c d by simp
qed

subsection \<open>C4: cleanup\<close>

text \<open>
  C4 fails on \<open>bg\<close> (\<open>main.py\<close>, lines 529-541): \<open>cleanup_local\<close> is the last call inside its
  \<open>try\<close>, and the handler only logs. When a step raises, the job ends without cleanup: if
  ffmpeg fails in \<open>aggressive_compress\<close>, the downloaded \<open>abc123.mp4\<close> stays in
  \<open>VIDEO_FOLDER\<close>; when every step succeeds it is removed. The two jobs of
  \<open>instagram_to_HLS_dropbox.py\<close> call \<open>cleanup_local_files\<close> in their handlers too, and on
  the same failure remove the downloaded file.
\<close>

theorem bg_leaves_files_on_failure:
  "events_of (bg (all_ok\<lparr>compress_ok := False\<rparr>) md5_stub example_url) fresh =
     [Ran Download True, Ran Compress False] \<and>
   files (snd (bg (all_ok\<lparr>compress_ok := False\<rparr>) md5_stub example_url fresh)) ''abc123.mp4'' =
     Some RegularFile \<and>
   files (snd (bg all_ok md5_stub example_url fresh)) ''abc123.mp4'' = None \<and>
   events_of (process_instagram_url (all_ok\<lparr>compress_ok := False\<rparr>) md5_stub example_url)
       fresh =
     [CheckedDuplicate False, Notified Starting True, Ran Download True,
      Notified (Progress Compress) True, Ran Compress False, Slept 0, Notified Failure True,
      CleanedUp] \<and>
   files (snd (process_instagram_url (all_ok\<lparr>compress_ok := False\<rparr>) md5_stub example_url
       fresh)) ''instagram_abc123.mp4'' = None \<and>
   events_of (process_in_thread (all_ok\<lparr>compress_ok := False\<rparr>) md5_stub example_url)
       fresh =
     [CheckedDuplicate False, Notified Starting True, Ran Download True,
      Notified (Progress Compress) True, Ran Compress False, Notified Failure True,
      CleanedUp] \<and>
   files (snd (process_in_thread (all_ok\<lparr>compress_ok := False\<rparr>) md5_stub example_url
       fresh)) ''instagram_abc123.mp4'' = None"
  by (simp add: run_defs)

subsection \<open>C10: a failed save is silent\<close>

text \<open>
  C10. Neither \<open>save\<close> nor \<open>mark_processed\<close> raises, however the write of the ledger file
  ends, and \<open>mark_processed\<close> always adds the identifier to the in-memory set. After a write
  that succeeded the file holds the in-memory set. After a write that failed, an identifier
  the file did not hold before is in memory only: the file differs from the in-memory
  set, and a restarted process does not know the identifier.
\<close>

theorem mark_processed_never_raises:
  "fst (save wr w) = Inr () \<and>
   fst (mark_processed h wr url w) = Inr () \<and>
   ledger (snd (mark_processed h wr url w)) = insert (extract_video_id h url) (ledger w) \<and>
   (wr = Written \<longrightarrow>
      load (disk (snd (mark_processed h wr url w))) = ledger (snd (mark_processed h wr url w))) \<and>
   (wr = OpenFailed \<longrightarrow> disk (snd (mark_processed h wr url w)) = disk w) \<and>
   (wr \<noteq> Written \<and> extract_video_id h url \<notin> load (disk w) \<longrightarrow>
      load (disk (snd (mark_processed h wr url w))) \<noteq> ledger (snd (mark_processed h wr url w)) \<and>
      extract_video_id h url \<notin> ledger (restart (snd (mark_processed h wr url w))))"
  by (cases wr; cases "disk w")
     (auto simp: mark_processed_def save_def then_do_def emit_def load_def restart_def)

theorem mark_processed_never_raises_witness:
  "fst (mark_processed md5_stub OpenFailed example_url fresh) = Inr () \<and>
   ''abc123'' \<in> ledger (snd (mark_processed md5_stub OpenFailed example_url fresh)) \<and>
   disk (snd (mark_processed md5_stub OpenFailed example_url fresh)) = NoFile \<and>
   ''abc123'' \<notin> ledger (restart (snd (mark_processed md5_stub OpenFailed example_url fresh))) \<and>
   fst (mark_processed md5_stub WriteFailed example_url fresh) = Inr () \<and>
   ''abc123'' \<notin> ledger (restart (snd (mark_processed md5_stub WriteFailed example_url fresh))) \<and>
   load (disk (snd (mark_processed md5_stub Written example_url fresh))) = {''abc123''}"
  using mark_processed_never_raises [of OpenFailed fresh md5_stub example_url]
    mark_processed_never_raises [of WriteFailed fresh md5_stub example_url]
    mark_processed_never_raises [of Written fresh md5_stub example_url]
  by (simp add: example_video_id fresh_def load_def)

end
